theory Spec2Isabelle
  imports Main
begin

section \<open>Settled promises\<close>

text \<open>
  Every job of \<^verbatim>\<open>createJobs\<close> returns a promise. A job is modelled by the value its
  promise settles to: \<open>Inl reason\<close> when it rejects, \<open>Inr v\<close> when it resolves to \<open>v\<close>.
  Rejection reasons are kept as their message text.
\<close>

type_synonym 'a result = "string + 'a"

text \<open>\<^verbatim>\<open>p.then(f)\<close>: a rejection passes through, a value is handed to \<open>f\<close>.\<close>

definition promise_then :: "'a result \<Rightarrow> ('a \<Rightarrow> 'b result) \<Rightarrow> 'b result" where
  "promise_then p f = (case p of Inl e \<Rightarrow> Inl e | Inr v \<Rightarrow> f v)"

text \<open>
  \<^verbatim>\<open>Promise.all([p, q])\<close>: resolves to both values, rejects as soon as one input
  rejects. When both reject the model reports the first in array order, which is what
  \<^verbatim>\<open>Promise.all\<close> does for inputs that are already settled.
\<close>

definition promise_all2 :: "'a result \<Rightarrow> 'b result \<Rightarrow> ('a \<times> 'b) result" where
  "promise_all2 p q =
     (case p of Inl e \<Rightarrow> Inl e
      | Inr a \<Rightarrow> (case q of Inl e \<Rightarrow> Inl e | Inr b \<Rightarrow> Inr (a, b)))"

text \<open>\<^verbatim>\<open>Promise.all(ps)\<close> over an array.\<close>

fun promise_all :: "'a result list \<Rightarrow> 'a list result" where
  "promise_all [] = Inr []"
| "promise_all (p # ps) =
     (case p of Inl e \<Rightarrow> Inl e
      | Inr a \<Rightarrow> (case promise_all ps of Inl e \<Rightarrow> Inl e | Inr as \<Rightarrow> Inr (a # as)))"

section \<open>The record jobs\<close>

text \<open>
  A plain object with string values (\<^verbatim>\<open>{'./foo': '/foo/foo.js'}\<close>) is a map from
  property names to values.
\<close>

type_synonym deps_object = "string \<rightharpoonup> string"

text \<open>\<^verbatim>\<open>zipObject(props, values)\<close> of lodash: a later duplicate property wins.\<close>

definition zipObject :: "string list \<Rightarrow> string list \<Rightarrow> deps_object" where
  "zipObject props vals = Map.empty(props [\<mapsto>] vals)"

text \<open>
  \<^verbatim>\<open>assign({}, a, b)\<close> of lodash: the own properties of \<open>a\<close>, then those of \<open>b\<close>, are
  copied onto a fresh object, so a property of \<open>b\<close> overwrites the same property of \<open>a\<close>.
\<close>

definition assign :: "deps_object \<Rightarrow> deps_object \<Rightarrow> deps_object \<Rightarrow> deps_object" where
  "assign target a b = (target ++ a) ++ b"

text \<open>The entries \<^verbatim>\<open>{source: '...'}\<close> produced by the dependency analysers.\<close>

record dependency =
  source :: string

text \<open>
  The object that \<^verbatim>\<open>readCache\<close> resolves to. A property that is absent (and so reads
  as \<^verbatim>\<open>undefined\<close>) is \<open>None\<close>. The jobs mutate this object in place; a job that may
  write to it returns the object as it is when the job has settled.
\<close>

record cache_data =
  cached_dependencyIdentifiers :: "string list option"
  cached_resolvePathDependencies :: "deps_object option"
  cached_resolvePackageDependencies :: "deps_object option"
  cached_code :: "string option"
  cached_sourceMap :: "string option"

text \<open>The fields of \<^verbatim>\<open>getState()\<close> that the modelled jobs read.\<close>

record state =
  sourceRoot :: string
  rootUrl :: string
  rootNodeModules :: string
  bootstrapRuntime :: string

record ref =
  name :: string

text \<open>
  A job reaches the other jobs through \<^verbatim>\<open>store.job(ref)\<close>. The store record holds, for
  the record at hand, what each of those calls settles to; a job is a function of the
  store entries it asks for. \<open>None\<close> in \<open>store_code\<close> and \<open>store_moduleDefinition\<close> is
  the JavaScript value \<^verbatim>\<open>null\<close>.
\<close>

record record_store =
  store_ext :: "string result"
  store_isTextFile :: "bool result"
  store_hashedName :: "string result"
  store_hash :: "string result"
  store_readCache :: "cache_data result"
  store_analyzeDependencies :: "dependency list result"
  store_pathDependencyIdentifiers :: "string list result"
  store_resolver :: "(string \<Rightarrow> string result) result"
  store_shouldCacheResolvedPathDependencies :: "bool result"
  store_resolvePathDependencies :: "deps_object result"
  store_resolvePackageDependencies :: "deps_object result"
  store_resolvedDependencies :: "deps_object result"
  store_code :: "string option result"
  store_moduleCode :: "string result"
  store_moduleDefinition :: "string option result"

subsection \<open>resolvedDependencies\<close>

text \<open>
  The array handed to \<^verbatim>\<open>Promise.all\<close> holds the package dependencies first and the path
  dependencies second; the callback names them the other way round. The bound names
  are kept as the source has them.
\<close>

definition resolvedDependencies :: "record_store \<Rightarrow> deps_object result" where
  "resolvedDependencies st =
     promise_then
       (promise_all2 (store_resolvePackageDependencies st) (store_resolvePathDependencies st))
       (\<lambda>(pathDeps, packageDeps). Inr (assign Map.empty pathDeps packageDeps))"

subsection \<open>isTextFile, shouldCacheResolvedPathDependencies\<close>

text \<open>\<^verbatim>\<open>startsWith(string, target)\<close> of lodash: \<open>target\<close> is a prefix of \<open>string\<close>.\<close>

definition startsWith :: "string \<Rightarrow> string \<Rightarrow> bool" where
  "startsWith s target = (take (length target) s = target)"

definition isTextFile :: "record_store \<Rightarrow> bool result" where
  "isTextFile st =
     promise_then (store_ext st)
       (\<lambda>ext. Inr (ext = ''.js'' \<or> ext = ''.css'' \<or> ext = ''.json''))"

definition shouldCacheResolvedPathDependencies :: "state \<Rightarrow> ref \<Rightarrow> bool result" where
  "shouldCacheResolvedPathDependencies state ref =
     Inr (startsWith (name ref) (rootNodeModules state))"

subsection \<open>url\<close>

text \<open>
  Node's \<^verbatim>\<open>path\<close> module has no property \<^verbatim>\<open>ext\<close>, so \<^verbatim>\<open>path.ext\<close> is
  \<^verbatim>\<open>undefined\<close>, and \<^verbatim>\<open>str.split(undefined)\<close> is the array holding \<open>str\<close> alone.
\<close>

definition split_undefined :: "string \<Rightarrow> string list" where
  "split_undefined str = [str]"

text \<open>\<^verbatim>\<open>array.join(separator)\<close>.\<close>

fun join :: "string list \<Rightarrow> string \<Rightarrow> string" where
  "join [] separator = []"
| "join [x] separator = x"
| "join (x # y # ys) separator = x @ separator @ join (y # ys) separator"

text \<open>
  \<^verbatim>\<open>path.relative\<close> belongs to the platform and is a parameter of the job.
\<close>

definition url :: "(string \<Rightarrow> string \<Rightarrow> string) \<Rightarrow> state \<Rightarrow> ref \<Rightarrow> record_store \<Rightarrow> string result" where
  "url path_relative state ref st =
     promise_then
       (promise_then (store_isTextFile st)
          (\<lambda>isTextFile. if isTextFile then store_hashedName st else Inr (name ref)))
       (\<lambda>name.
          let relPath =
                (if startsWith name (sourceRoot state)
                 then path_relative (sourceRoot state) name
                 else name)
          in Inr (rootUrl state @ join (split_undefined relPath) ''/''))"

text \<open>
  What the specification asks of the last step, in its own words: every platform path
  separator \<open>sep\<close> of the relative part becomes \<^verbatim>\<open>/\<close>.
\<close>

definition spec_convert_separators :: "char \<Rightarrow> string \<Rightarrow> string" where
  "spec_convert_separators sep relPath = map (\<lambda>c. if c = sep then CHR ''/'' else c) relPath"

subsection \<open>dependencyIdentifiers\<close>

text \<open>\<^verbatim>\<open>str.indexOf(c)\<close> for a one-character \<open>c\<close>: the first position of \<open>c\<close>, or \<open>-1\<close>.\<close>

fun indexOf :: "string \<Rightarrow> char \<Rightarrow> int" where
  "indexOf [] c = - 1"
| "indexOf (d # ds) c =
     (if d = c then 0 else (let i = indexOf ds c in if i = - 1 then - 1 else i + 1))"

text \<open>\<^verbatim>\<open>str.slice(0, end)\<close>; a negative \<open>end\<close> counts from the end of the string.\<close>

definition slice0 :: "string \<Rightarrow> int \<Rightarrow> string" where
  "slice0 str end = (if end < 0 then take (length str - nat (- end)) str else take (nat end) str)"

text \<open>The function mapped over the identifiers: three cuts, one after the other.\<close>

definition clean_identifier :: "string \<Rightarrow> string" where
  "clean_identifier id0 =
     (let bangStart = indexOf id0 (CHR ''!'');
          id1 = (if bangStart \<noteq> - 1 then slice0 id0 bangStart else id0);
          paramStart = indexOf id1 (CHR ''?'');
          id2 = (if paramStart \<noteq> - 1 then slice0 id1 paramStart else id1);
          hashStart = indexOf id2 (CHR ''#'');
          id3 = (if hashStart \<noteq> - 1 then slice0 id2 hashStart else id2)
      in id3)"

text \<open>
  The job returns what it settles to, and the cache object as the job leaves it. An
  array is truthy even when empty, so the cached list is used whenever the property
  is there.
\<close>

definition dependencyIdentifiers :: "record_store \<Rightarrow> string list result \<times> cache_data result" where
  "dependencyIdentifiers st =
     (case store_readCache st of
        Inl e \<Rightarrow> (Inl e, Inl e)
      | Inr cachedData \<Rightarrow>
          (case cached_dependencyIdentifiers cachedData of
             Some ids \<Rightarrow> (Inr ids, Inr cachedData)
           | None \<Rightarrow>
               (case store_analyzeDependencies st of
                  Inl e \<Rightarrow> (Inl e, Inr cachedData)
                | Inr deps \<Rightarrow>
                    (let ids = map clean_identifier (map source deps)
                     in (Inr ids, Inr (cachedData\<lparr>cached_dependencyIdentifiers := Some ids\<rparr>))))))"

subsection \<open>resolvePathDependencies\<close>

text \<open>
  The cached object is returned only behind \<^verbatim>\<open>shouldCache && cachedData.resolvePathDependencies\<close>;
  the assignment \<^verbatim>\<open>cachedData.resolvePathDependencies = deps\<close> ends the other path
  whatever \<open>shouldCache\<close> is.
\<close>

definition resolvePathDependencies :: "record_store \<Rightarrow> deps_object result \<times> cache_data result" where
  "resolvePathDependencies st =
     (case promise_all2 (store_readCache st) (store_shouldCacheResolvedPathDependencies st) of
        Inl e \<Rightarrow> (Inl e, store_readCache st)
      | Inr (cachedData, shouldCache) \<Rightarrow>
          (if shouldCache \<and> cached_resolvePathDependencies cachedData \<noteq> None
           then (Inr (the (cached_resolvePathDependencies cachedData)), Inr cachedData)
           else
             (case promise_then (store_pathDependencyIdentifiers st)
                     (\<lambda>ids. promise_then
                        (promise_then (store_resolver st)
                           (\<lambda>resolver. promise_all (map (\<lambda>id. resolver id) ids)))
                        (\<lambda>resolved. Inr (zipObject ids resolved))) of
                Inl e \<Rightarrow> (Inl e, Inr cachedData)
              | Inr deps \<Rightarrow>
                  (Inr deps, Inr (cachedData\<lparr>cached_resolvePathDependencies := Some deps\<rparr>)))))"

subsection \<open>moduleDefinition, content\<close>

text \<open>
  \<^verbatim>\<open>createJSModuleDefinition\<close> is imported from \<^verbatim>\<open>./utils\<close> and is a parameter of
  the job; it receives the fields \<open>name\<close>, \<open>deps\<close>, \<open>hash\<close> and \<open>code\<close>.
\<close>

definition moduleDefinition ::
  "(string \<Rightarrow> deps_object \<Rightarrow> string \<Rightarrow> string \<Rightarrow> string) \<Rightarrow> state \<Rightarrow> ref \<Rightarrow> record_store
     \<Rightarrow> string option result" where
  "moduleDefinition createJSModuleDefinition state ref st =
     (if name ref = bootstrapRuntime state then Inr None
      else promise_then
             (promise_all2 (store_resolvedDependencies st)
                (promise_all2 (store_hash st) (store_moduleCode st)))
             (\<lambda>(resolvedDependencies, hash, moduleCode).
                Inr (Some (createJSModuleDefinition (name ref) resolvedDependencies hash moduleCode))))"

definition content :: "state \<Rightarrow> ref \<Rightarrow> record_store \<Rightarrow> string option result" where
  "content state ref st =
     promise_then (promise_all2 (store_isTextFile st) (store_ext st))
       (\<lambda>(isTextFile, ext).
          if \<not> isTextFile then Inr None
          else if name ref = bootstrapRuntime state \<or> ext = ''.css'' then store_code st
          else if ext = ''.js'' \<or> ext = ''.json'' then store_moduleDefinition st
          else Inl (''Unknown text file extension: '' @ ext
                    @ ''. Cannot generate content for file: '' @ name ref))"

section \<open>The dependency graph\<close>

text \<open>
  \<^verbatim>\<open>createGraph\<close> closes over four objects: the \<open>nodes\<close> object, the array
  \<open>permanentNodes\<close>, the array \<open>pendingJobs\<close> and an event emitter. They are the fields
  of one record that every operation takes and returns.

  \<^item> \<open>nodes\<close> is created with \<^verbatim>\<open>Object.create(null)\<close>; it is an association list
    from node names to node objects, so that the graph can be enumerated.
  \<^item> A job \<^verbatim>\<open>{node, isValid}\<close> is an object shared between \<open>pendingJobs\<close> and the
    closures of \<^verbatim>\<open>traceNode\<close>; \<^verbatim>\<open>pull(pendingJobs, job)\<close> compares by identity.
    The record keeps a store \<open>jobs\<close> of job objects addressed by a number, \<open>nextJob\<close> is
    the next free address, and \<open>pendingJobs\<close> holds addresses.
  \<^item> Listeners are not part of the graph: \<^verbatim>\<open>events.emit\<close> appends to the log
    \<open>events\<close>.
  \<^item> \<open>nextTickQueue\<close> holds the callbacks handed to \<^verbatim>\<open>process.nextTick\<close>, oldest
    first, and \<open>inFlight\<close> the jobs for which \<^verbatim>\<open>getDependencies\<close> has been called and
    has not yet called back.
\<close>

type_synonym node_id = string

record graph_node =
  dependencies :: "node_id list"
  dependents :: "node_id list"

type_synonym node_map = "(node_id \<times> graph_node) list"

record job =
  job_node :: node_id
  isValid :: bool

datatype event = Added node_id | Pruned node_id | Error string node_id | Complete

datatype tick = StartTracingNode nat | CompleteCheck

record graph =
  nodes :: node_map
  permanentNodes :: "node_id list"
  pendingJobs :: "nat list"
  events :: "event list"
  jobs :: "nat \<Rightarrow> job"
  nextJob :: nat
  nextTickQueue :: "tick list"
  inFlight :: "nat list"

definition createGraph :: graph where
  "createGraph =
     \<lparr>nodes = [], permanentNodes = [], pendingJobs = [], events = [],
      jobs = (\<lambda>_. \<lparr>job_node = [], isValid = False\<rparr>), nextJob = 0,
      nextTickQueue = [], inFlight = []\<rparr>"

text \<open>\<^verbatim>\<open>!!nodes[node]\<close>: a node object is truthy, so this asks whether the key is there.\<close>

definition isNodeDefined :: "node_map \<Rightarrow> node_id \<Rightarrow> bool" where
  "isNodeDefined ns n = (n \<in> set (map fst ns))"

definition isNodePending :: "(nat \<Rightarrow> job) \<Rightarrow> nat list \<Rightarrow> node_id \<Rightarrow> bool" where
  "isNodePending js pending n = list_ex (\<lambda>j. isValid (js j) \<and> job_node (js j) = n) pending"

definition ensureNodeIsPermanent :: "node_id list \<Rightarrow> node_id \<Rightarrow> node_id list" where
  "ensureNodeIsPermanent perm n = (if n \<in> set perm then perm else perm @ [n])"

definition setNodeAsPermanent :: "node_id \<Rightarrow> graph \<Rightarrow> graph" where
  "setNodeAsPermanent n g = g\<lparr>permanentNodes := ensureNodeIsPermanent (permanentNodes g) n\<rparr>"

subsection \<open>The helpers imported from utils\<close>

text \<open>
  Modelled from the spec: \<^verbatim>\<open>addNode\<close> of \<^verbatim>\<open>directed-dependency-graph/utils\<close>, which
  is not among the sources. A graph node is \<^verbatim>\<open>{id, dependencies: set, dependents: set}\<close>;
  a new node has no edges.
\<close>

definition addNode :: "node_map \<Rightarrow> node_id \<Rightarrow> node_map" where
  "addNode ns n = ns @ [(n, \<lparr>dependencies = [], dependents = []\<rparr>)]"

definition add_member :: "node_id \<Rightarrow> node_id list \<Rightarrow> node_id list" where
  "add_member x xs = (if x \<in> set xs then xs else xs @ [x])"

text \<open>
  Modelled from the spec: \<^verbatim>\<open>addEdge\<close> of \<^verbatim>\<open>directed-dependency-graph/utils\<close>, which
  is not among the sources. For every edge \<open>a \<rightarrow> b\<close>, \<open>b\<close> is among the dependencies of
  \<open>a\<close> and \<open>a\<close> among the dependents of \<open>b\<close>.
\<close>

definition addEdge :: "node_map \<Rightarrow> node_id \<Rightarrow> node_id \<Rightarrow> node_map" where
  "addEdge ns head tail =
     map (\<lambda>(k, nd).
            (k, nd\<lparr>dependencies := (if k = head then add_member tail (dependencies nd)
                                     else dependencies nd),
                   dependents := (if k = tail then add_member head (dependents nd)
                                  else dependents nd)\<rparr>))
       ns"

text \<open>The forward edges of the graph: \<open>(a, b)\<close> when \<open>b\<close> is a dependency of \<open>a\<close>.\<close>

definition graph_edges :: "node_map \<Rightarrow> (node_id \<times> node_id) list" where
  "graph_edges ns =
     concat (map (\<lambda>(a, nd). map (Pair a) (filter (isNodeDefined ns) (dependencies nd))) ns)"

text \<open>\<open>b\<close> is \<open>a\<close> or can be reached from \<open>a\<close> along forward edges.\<close>

definition reachable :: "node_map \<Rightarrow> node_id \<Rightarrow> node_id \<Rightarrow> bool" where
  "reachable ns a b = (a = b \<or> (a, b) \<in> trancl (set (graph_edges ns)))"

text \<open>\<open>y\<close> is reachable from a permanent root that is a node of the graph.\<close>

definition reachable_from_roots :: "node_map \<Rightarrow> node_id list \<Rightarrow> node_id \<Rightarrow> bool" where
  "reachable_from_roots ns perm y = list_ex (\<lambda>p. isNodeDefined ns p \<and> reachable ns p y) perm"

text \<open>Taking nodes out of the graph, with every edge from or to them.\<close>

definition remove_nodes :: "node_id list \<Rightarrow> node_map \<Rightarrow> node_map" where
  "remove_nodes removed ns =
     map (\<lambda>(k, nd).
            (k, nd\<lparr>dependencies := filter (\<lambda>d. d \<notin> set removed) (dependencies nd),
                   dependents := filter (\<lambda>d. d \<notin> set removed) (dependents nd)\<rparr>))
       (filter (\<lambda>(k, nd). k \<notin> set removed) ns)"

text \<open>
  Modelled from the spec: \<^verbatim>\<open>pruneFromNode\<close> of \<^verbatim>\<open>directed-dependency-graph/utils\<close>,
  which is not among the sources. "Starting from \<open>id\<close>, remove it and any successor
  that, after removal, is not reachable from any remaining permanent root." The
  result is the list of removed nodes, \<open>id\<close> first, and the graph without them. The
  permanent roots are the third argument, as in the call in \<^verbatim>\<open>pruneNode\<close>.
\<close>

definition pruneFromNode :: "node_map \<Rightarrow> node_id \<Rightarrow> node_id list \<Rightarrow> node_id list \<times> node_map" where
  "pruneFromNode ns n ignore =
     (let rest = remove_nodes [n] ns;
          prunedNodes =
            n # filter (\<lambda>y. y \<noteq> n \<and> reachable ns n y \<and> \<not> reachable_from_roots rest ignore y)
                  (map fst ns)
      in (prunedNodes, remove_nodes prunedNodes ns))"

subsection \<open>traceNode\<close>

text \<open>\<^verbatim>\<open>pull(pendingJobs, job)\<close>.\<close>

definition removeJob :: "nat \<Rightarrow> graph \<Rightarrow> graph" where
  "removeJob j g = g\<lparr>pendingJobs := removeAll j (pendingJobs g)\<rparr>"

text \<open>
  \<^verbatim>\<open>traceNode(node)\<close> creates the job, pushes it and hands \<^verbatim>\<open>startTracingNode\<close> to
  \<^verbatim>\<open>process.nextTick\<close>.
\<close>

definition traceNode :: "node_id \<Rightarrow> graph \<Rightarrow> graph" where
  "traceNode n g =
     (let j = nextJob g
      in g\<lparr>jobs := (jobs g)(j := \<lparr>job_node = n, isValid = True\<rparr>),
           nextJob := Suc j,
           pendingJobs := pendingJobs g @ [j],
           nextTickQueue := nextTickQueue g @ [StartTracingNode j]\<rparr>)"

text \<open>
  \<^verbatim>\<open>startTracingNode\<close> of job \<open>j\<close>, up to the call of \<^verbatim>\<open>getDependencies\<close>: a cancelled
  job is dropped, any other job is now in flight.
\<close>

definition startTracingNode :: "nat \<Rightarrow> graph \<Rightarrow> graph" where
  "startTracingNode j g =
     (if \<not> isValid (jobs g j) then removeJob j g
      else g\<lparr>inFlight := inFlight g @ [j]\<rparr>)"

definition emit :: "event \<Rightarrow> graph \<Rightarrow> graph" where
  "emit e g = g\<lparr>events := events g @ [e]\<rparr>"

text \<open>
  The body of \<^verbatim>\<open>dependencies.forEach\<close> in the callback of job node \<open>n\<close>; the
  accumulator is the graph and the array \<open>nodesAdded\<close>.
\<close>

definition forEachDependency :: "node_id \<Rightarrow> graph \<times> node_id list \<Rightarrow> node_id \<Rightarrow> graph \<times> node_id list" where
  "forEachDependency n acc depNode =
     (let (g, nodesAdded) = acc;
          g1 = (if \<not> isNodeDefined (nodes g) depNode
                   \<and> \<not> isNodePending (jobs g) (pendingJobs g) depNode
                then traceNode depNode g else g);
          (g2, nodesAdded2) =
             (if \<not> isNodeDefined (nodes g1) depNode
              then (g1\<lparr>nodes := addNode (nodes g1) depNode\<rparr>, nodesAdded @ [depNode])
              else (g1, nodesAdded))
      in (g2\<lparr>nodes := addEdge (nodes g2) n depNode\<rparr>, nodesAdded2))"

text \<open>
  The callback that \<^verbatim>\<open>startTracingNode\<close> hands to \<^verbatim>\<open>getDependencies\<close>, for job \<open>j\<close>.
  Its argument is \<open>Inl err\<close> for a truthy \<open>err\<close> and \<open>Inr deps\<close> otherwise.
\<close>

definition getDependenciesCallback :: "nat \<Rightarrow> string + node_id list \<Rightarrow> graph \<Rightarrow> graph" where
  "getDependenciesCallback j res g =
     (let n = job_node (jobs g j);
          g1 = removeJob j g
      in case res of
           Inl err \<Rightarrow> emit (Error err n) g1
         | Inr deps \<Rightarrow>
             if \<not> isValid (jobs g1 j) then g1
             else
               (let (g2, nodesAdded) =
                      (if \<not> isNodeDefined (nodes g1) n
                       then (g1\<lparr>nodes := addNode (nodes g1) n\<rparr>, [n])
                       else (g1, []));
                    (g3, nodesAdded3) = foldl (forEachDependency n) (g2, nodesAdded) deps;
                    g4 = foldl (\<lambda>g a. emit (Added a) g) g3 nodesAdded3
                in g4\<lparr>nextTickQueue := nextTickQueue g4 @ [CompleteCheck]\<rparr>))"

text \<open>The function handed to \<^verbatim>\<open>process.nextTick\<close> at the end of the callback.\<close>

definition completeCheck :: "graph \<Rightarrow> graph" where
  "completeCheck g = (if pendingJobs g = [] then emit Complete g else g)"

subsection \<open>pruneNode\<close>

definition prunePendingJobsAndEmit :: "node_id \<Rightarrow> graph \<Rightarrow> graph" where
  "prunePendingJobsAndEmit n g =
     emit (Pruned n)
       (g\<lparr>jobs := (\<lambda>j. if j \<in> set (pendingJobs g) \<and> job_node (jobs g j) = n
                        then (jobs g j)\<lparr>isValid := False\<rparr> else jobs g j)\<rparr>)"

definition pruneNode :: "node_id \<Rightarrow> graph \<Rightarrow> graph" where
  "pruneNode n g =
     (if isNodeDefined (nodes g) n then
        (let (prunedNodes, ns) = pruneFromNode (nodes g) n (permanentNodes g)
         in foldl (\<lambda>g p. prunePendingJobsAndEmit p g) (g\<lparr>nodes := ns\<rparr>) prunedNodes)
      else if isNodePending (jobs g) (pendingJobs g) n then prunePendingJobsAndEmit n g
      else g)"

subsection \<open>Runs of the graph\<close>

text \<open>
  What can happen to a graph: a call of one of its three methods, the oldest
  \<^verbatim>\<open>process.nextTick\<close> callback running, or \<^verbatim>\<open>getDependencies\<close> calling back for a
  job in flight. A step that cannot happen (no callback queued, job not in flight) is
  \<open>None\<close>. A \<^verbatim>\<open>getDependencies\<close> that calls back before it returns is the tick
  followed at once by the callback.
\<close>

datatype action =
    TraceNode node_id
  | SetNodeAsPermanent node_id
  | PruneNode node_id
  | NextTick
  | Callback nat "string + node_id list"

definition step :: "action \<Rightarrow> graph \<Rightarrow> graph option" where
  "step a g =
     (case a of
        TraceNode n \<Rightarrow> Some (traceNode n g)
      | SetNodeAsPermanent n \<Rightarrow> Some (setNodeAsPermanent n g)
      | PruneNode n \<Rightarrow> Some (pruneNode n g)
      | NextTick \<Rightarrow>
          (case nextTickQueue g of
             [] \<Rightarrow> None
           | StartTracingNode j # q \<Rightarrow> Some (startTracingNode j (g\<lparr>nextTickQueue := q\<rparr>))
           | CompleteCheck # q \<Rightarrow> Some (completeCheck (g\<lparr>nextTickQueue := q\<rparr>)))
      | Callback j res \<Rightarrow>
          (if j \<in> set (inFlight g)
           then Some (getDependenciesCallback j res (g\<lparr>inFlight := remove1 j (inFlight g)\<rparr>))
           else None))"

fun run :: "action list \<Rightarrow> graph \<Rightarrow> graph option" where
  "run [] g = Some g"
| "run (a # as) g = (case step a g of None \<Rightarrow> None | Some g' \<Rightarrow> run as g')"

section \<open>Notions used by the properties\<close>

text \<open>
  The specification's reading of the cleaning of an identifier: everything from the
  first \<^verbatim>\<open>!\<close>, \<^verbatim>\<open>?\<close> or \<^verbatim>\<open>#\<close> onward is removed.
\<close>

definition spec_strip_suffix :: "string \<Rightarrow> string" where
  "spec_strip_suffix ident = takeWhile (\<lambda>c. c \<notin> {CHR ''!'', CHR ''?'', CHR ''#''}) ident"

definition node_ids :: "node_map \<Rightarrow> node_id set" where
  "node_ids ns = set (map fst ns)"

text \<open>
  \<open>y\<close> is reachable from a permanent root once \<open>x\<close> has been taken out of the graph.
\<close>

definition live :: "node_map \<Rightarrow> node_id \<Rightarrow> node_id list \<Rightarrow> node_id \<Rightarrow> bool" where
  "live ns x perm y = reachable_from_roots (remove_nodes [x] ns) perm y"

definition is_added :: "event \<Rightarrow> bool" where
  "is_added e = (case e of Added n \<Rightarrow> True | _ \<Rightarrow> False)"

text \<open>Job \<open>j\<close> has been created and is cancelled.\<close>

definition allocated_invalid :: "nat \<Rightarrow> graph \<Rightarrow> bool" where
  "allocated_invalid j g = (j < nextJob g \<and> \<not> isValid (jobs g j))"

definition count_complete :: "event list \<Rightarrow> nat" where
  "count_complete evs = length (filter (\<lambda>e. e = Complete) evs)"

text \<open>The completion checks waiting in the \<^verbatim>\<open>nextTick\<close> queue.\<close>

definition count_checks :: "tick list \<Rightarrow> nat" where
  "count_checks q = length (filter (\<lambda>t. t = CompleteCheck) q)"

text \<open>The step runs a completion check.\<close>

definition runs_check :: "action \<Rightarrow> graph \<Rightarrow> bool" where
  "runs_check a g =
     (a = NextTick \<and> nextTickQueue g \<noteq> [] \<and> hd (nextTickQueue g) = CompleteCheck)"

text \<open>The step runs a completion check that finds \<open>pendingJobs\<close> empty.\<close>

definition emits_complete :: "action \<Rightarrow> graph \<Rightarrow> bool" where
  "emits_complete a g =
     (a = NextTick \<and> nextTickQueue g \<noteq> [] \<and> hd (nextTickQueue g) = CompleteCheck
        \<and> pendingJobs g = [])"

text \<open>The step is the callback of a job that is still valid, without an error.\<close>

definition schedules_check :: "action \<Rightarrow> graph \<Rightarrow> bool" where
  "schedules_check a g =
     (case a of Callback j (Inr deps) \<Rightarrow> isValid (jobs g j) | _ \<Rightarrow> False)"

text \<open>
  How often \<open>pendingJobs\<close> goes from non-empty to empty along a run: the number of
  times the graph becomes quiescent.
\<close>

fun drains :: "action list \<Rightarrow> graph \<Rightarrow> nat" where
  "drains [] g = 0"
| "drains (a # as) g =
     (case step a g of
        None \<Rightarrow> 0
      | Some g' \<Rightarrow> (if pendingJobs g \<noteq> [] \<and> pendingJobs g' = [] then 1 else 0) + drains as g')"

section \<open>Example inputs\<close>

text \<open>A store in which every job rejects; examples override the entries they need.\<close>

definition rejecting_store :: record_store where
  "rejecting_store =
     \<lparr>store_ext = Inl ''rejected'', store_isTextFile = Inl ''rejected'',
      store_hashedName = Inl ''rejected'', store_hash = Inl ''rejected'',
      store_readCache = Inl ''rejected'', store_analyzeDependencies = Inl ''rejected'',
      store_pathDependencyIdentifiers = Inl ''rejected'', store_resolver = Inl ''rejected'',
      store_shouldCacheResolvedPathDependencies = Inl ''rejected'',
      store_resolvePathDependencies = Inl ''rejected'',
      store_resolvePackageDependencies = Inl ''rejected'',
      store_resolvedDependencies = Inl ''rejected'', store_code = Inl ''rejected'',
      store_moduleCode = Inl ''rejected'', store_moduleDefinition = Inl ''rejected''\<rparr>"

definition empty_cache :: cache_data where
  "empty_cache =
     \<lparr>cached_dependencyIdentifiers = None, cached_resolvePathDependencies = None,
      cached_resolvePackageDependencies = None, cached_code = None, cached_sourceMap = None\<rparr>"

definition test_state :: state where
  "test_state =
     \<lparr>sourceRoot = ''/foo/'', rootUrl = ''http://localhost:3000/files/'',
      rootNodeModules = ''/foo/node_modules'', bootstrapRuntime = ''test.js''\<rparr>"

definition cached_ids_store :: record_store where
  "cached_ids_store =
     rejecting_store
       \<lparr>store_readCache :=
          Inr (empty_cache\<lparr>cached_dependencyIdentifiers := Some [''test read cache'']\<rparr>),
        store_analyzeDependencies := Inr [\<lparr>source = ''foo!bar''\<rparr>]\<rparr>"

definition fresh_ids_store :: record_store where
  "fresh_ids_store =
     rejecting_store
       \<lparr>store_readCache := Inr empty_cache,
        store_analyzeDependencies :=
          Inr [\<lparr>source = ''foo!bar''\<rparr>, \<lparr>source = ''bar?foo''\<rparr>, \<lparr>source = ''woz#foo''\<rparr>]\<rparr>"

definition test_resolver :: "string \<Rightarrow> string result" where
  "test_resolver ident = Inr (ident @ '' test'')"

definition stale_cache :: cache_data where
  "stale_cache = empty_cache\<lparr>cached_resolvePathDependencies := Some [''./old'' \<mapsto> ''/old.js'']\<rparr>"

text \<open>The store of a file outside the root \<^verbatim>\<open>node_modules\<close>.\<close>

definition outside_store :: record_store where
  "outside_store =
     rejecting_store
       \<lparr>store_readCache := Inr stale_cache,
        store_shouldCacheResolvedPathDependencies :=
          shouldCacheResolvedPathDependencies test_state \<lparr>name = ''/bar/woz.js''\<rparr>,
        store_pathDependencyIdentifiers := Inr [''./foo''],
        store_resolver := Inr test_resolver\<rparr>"

text \<open>
  The store of the bootstrap runtime \<^verbatim>\<open>test.js\<close>: \<^verbatim>\<open>moduleDefinition\<close> is
  \<^verbatim>\<open>null\<close> for it.
\<close>

definition bootstrap_store :: record_store where
  "bootstrap_store =
     rejecting_store
       \<lparr>store_ext := Inr ''.js'', store_isTextFile := Inr True,
        store_code := Inr (Some ''test code''), store_moduleDefinition := Inr None\<rparr>"

definition backslash :: char where
  "backslash = CHR 0x5C"

text \<open>A configuration on a platform whose path separator is the backslash.\<close>

definition windows_state :: state where
  "windows_state =
     \<lparr>sourceRoot = ''C:'' @ [backslash] @ ''foo'' @ [backslash],
      rootUrl = ''http://localhost:3000/files/'',
      rootNodeModules = ''C:'' @ [backslash] @ ''foo'' @ [backslash] @ ''node_modules'',
      bootstrapRuntime = ''C:'' @ [backslash] @ ''foo'' @ [backslash] @ ''bootstrap.js''\<rparr>"

definition binary_store :: record_store where
  "binary_store = rejecting_store\<lparr>store_isTextFile := Inr False\<rparr>"

text \<open>The graph after a run from the empty graph.\<close>

definition after :: "action list \<Rightarrow> graph" where
  "after as = the (run as createGraph)"

text \<open>
  Two entries \<open>A\<close> and \<open>Y\<close> without dependencies, whose \<^verbatim>\<open>getDependencies\<close> calls back
  at once; the two completion checks run last.
\<close>

definition two_entries_run :: "action list" where
  "two_entries_run =
     [TraceNode ''A'', TraceNode ''Y'', NextTick, Callback 0 (Inr []),
      NextTick, Callback 1 (Inr []), NextTick, NextTick]"

text \<open>The same run, stopped before the completion checks.\<close>

definition before_checks_run :: "action list" where
  "before_checks_run =
     [TraceNode ''A'', TraceNode ''Y'', NextTick, Callback 0 (Inr []),
      NextTick, Callback 1 (Inr [])]"

text \<open>One entry whose dependency resolution fails.\<close>

definition failing_run :: "action list" where
  "failing_run = [TraceNode ''A'', NextTick, Callback 0 (Inl ''ENOENT'')]"

text \<open>
  The trace of \<open>A \<rightarrow> B \<rightarrow> C\<close> with \<open>C \<rightarrow> B\<close>, after which \<open>C\<close> is made permanent.
\<close>

definition cycle_run :: "action list" where
  "cycle_run =
     [TraceNode ''A'', NextTick, Callback 0 (Inr [''B'']),
      NextTick, NextTick, Callback 1 (Inr [''C'']),
      NextTick, NextTick, Callback 2 (Inr [''B'']), NextTick,
      SetNodeAsPermanent ''C'']"

text \<open>
  Two entries: \<open>A\<close>, which depends on \<open>B\<close>, and \<open>Y\<close>, which has nothing to do with
  either. No root is permanent.
\<close>

definition unrelated_run :: "action list" where
  "unrelated_run =
     [TraceNode ''A'', TraceNode ''Y'', NextTick, Callback 0 (Inr [''B'']),
      NextTick, Callback 1 (Inr []), NextTick, Callback 2 (Inr []),
      NextTick, NextTick, NextTick]"

text \<open>The job of \<open>A\<close> is pruned while its dependency resolution is in flight.\<close>

definition invalidated_in_flight_run :: "action list" where
  "invalidated_in_flight_run = [TraceNode ''A'', NextTick, PruneNode ''A'']"

section \<open>Properties of the record jobs\<close>

text \<open>
  C2. When \<^verbatim>\<open>resolvePathDependencies\<close> yields the object \<open>pathMap\<close> and
  \<^verbatim>\<open>resolvePackageDependencies\<close> yields the object \<open>packageMap\<close>,
  \<^verbatim>\<open>resolvedDependencies\<close> yields an object whose properties are those of either map,
  which agrees with \<open>pathMap\<close> on every property of \<open>pathMap\<close> (so the path entry wins on
  a collision) and with \<open>packageMap\<close> on every other property.
\<close>

theorem resolvedDependencies_union:
  assumes "store_resolvePathDependencies st = Inr pathMap"
    and "store_resolvePackageDependencies st = Inr packageMap"
  shows "\<exists>m. resolvedDependencies st = Inr m
           \<and> dom m = dom pathMap \<union> dom packageMap
           \<and> (\<forall>k \<in> dom pathMap. m k = pathMap k)
           \<and> (\<forall>k. k \<notin> dom pathMap \<longrightarrow> m k = packageMap k)"
proof -
  have eq: "resolvedDependencies st = Inr (packageMap ++ pathMap)"
    using assms by (simp add: resolvedDependencies_def promise_then_def promise_all2_def assign_def)
  have "dom (packageMap ++ pathMap) = dom pathMap \<union> dom packageMap"
    by auto
  moreover have "\<forall>k \<in> dom pathMap. (packageMap ++ pathMap) k = pathMap k"
    by (auto simp: map_add_dom_app_simps)
  moreover have "\<forall>k. k \<notin> dom pathMap \<longrightarrow> (packageMap ++ pathMap) k = packageMap k"
    by (auto simp: map_add_dom_app_simps)
  ultimately show ?thesis using eq by blast
qed

theorem resolvedDependencies_union_witness:
  "\<exists>m. resolvedDependencies
          (rejecting_store
             \<lparr>store_resolvePathDependencies := Inr [''./foo'' \<mapsto> ''/foo/foo.js'', ''bar'' \<mapsto> ''/foo/bar.js''],
              store_resolvePackageDependencies := Inr [''bar'' \<mapsto> ''/foo/node_modules/bar/index.js'']\<rparr>)
        = Inr m
      \<and> m ''./foo'' = Some ''/foo/foo.js'' \<and> m ''bar'' = Some ''/foo/bar.js''"
proof -
  let ?pathMap = "[''./foo'' \<mapsto> ''/foo/foo.js'', ''bar'' \<mapsto> ''/foo/bar.js'']"
  let ?packageMap = "[''bar'' \<mapsto> ''/foo/node_modules/bar/index.js'']"
  let ?st = "rejecting_store
               \<lparr>store_resolvePathDependencies := Inr ?pathMap,
                store_resolvePackageDependencies := Inr ?packageMap\<rparr>"
  have h1: "store_resolvePathDependencies ?st = Inr ?pathMap" by simp
  have h2: "store_resolvePackageDependencies ?st = Inr ?packageMap" by simp
  from resolvedDependencies_union [OF h1 h2]
  obtain m where m: "resolvedDependencies ?st = Inr m"
    and agree: "\<forall>k \<in> dom ?pathMap. m k = ?pathMap k" by blast
  from agree have "m ''./foo'' = Some ''/foo/foo.js''" "m ''bar'' = Some ''/foo/bar.js''"
    by simp_all
  with m show ?thesis by blast
qed

subsection \<open>content\<close>

text \<open>
  For the bootstrap runtime \<^verbatim>\<open>moduleDefinition\<close> is \<^verbatim>\<open>null\<close>, whatever its
  extension.
\<close>

lemma moduleDefinition_bootstrap:
  "name ref = bootstrapRuntime state
   \<Longrightarrow> moduleDefinition createJSModuleDefinition state ref st = Inr None"
  by (simp add: moduleDefinition_def)

text \<open>
  The four cases of C5 overlap, and read side by side they fail: the bootstrap
  runtime \<^verbatim>\<open>test.js\<close> has the extension \<^verbatim>\<open>.js\<close>, its \<^verbatim>\<open>content\<close> is its
  \<^verbatim>\<open>code\<close>, and that is not its \<^verbatim>\<open>moduleDefinition\<close>, which is \<^verbatim>\<open>null\<close>.
\<close>

theorem content_bootstrap_counterexample:
  "name \<lparr>name = ''test.js''\<rparr> = bootstrapRuntime test_state
   \<and> store_ext bootstrap_store = Inr ''.js''
   \<and> isTextFile bootstrap_store = Inr True
   \<and> store_isTextFile bootstrap_store = Inr True
   \<and> store_moduleDefinition bootstrap_store = Inr None
   \<and> content test_state \<lparr>name = ''test.js''\<rparr> bootstrap_store = Inr (Some ''test code'')
   \<and> content test_state \<lparr>name = ''test.js''\<rparr> bootstrap_store \<noteq> store_moduleDefinition bootstrap_store"
  by (simp add: bootstrap_store_def rejecting_store_def test_state_def content_def
      isTextFile_def promise_then_def promise_all2_def)

text \<open>
  C5, amended. The cases of \<^verbatim>\<open>content\<close> are tried in this order. When \<^verbatim>\<open>isTextFile\<close>
  is false the result is \<^verbatim>\<open>null\<close>. Otherwise, for the bootstrap runtime or the
  extension \<^verbatim>\<open>.css\<close>, it is what \<^verbatim>\<open>code\<close> settles to. Otherwise, for the extension
  \<^verbatim>\<open>.js\<close> or \<^verbatim>\<open>.json\<close>, it is what \<^verbatim>\<open>moduleDefinition\<close> settles to. Otherwise the
  job rejects with the message \<^verbatim>\<open>Unknown text file extension\<close>.
\<close>

theorem content_cases:
  assumes "store_isTextFile st = Inr isText" and "store_ext st = Inr ext"
  shows "(\<not> isText \<longrightarrow> content state ref st = Inr None)
       \<and> (isText \<and> (name ref = bootstrapRuntime state \<or> ext = ''.css'')
          \<longrightarrow> content state ref st = store_code st)
       \<and> (isText \<and> name ref \<noteq> bootstrapRuntime state \<and> (ext = ''.js'' \<or> ext = ''.json'')
          \<longrightarrow> content state ref st = store_moduleDefinition st)
       \<and> (isText \<and> name ref \<noteq> bootstrapRuntime state
            \<and> ext \<noteq> ''.css'' \<and> ext \<noteq> ''.js'' \<and> ext \<noteq> ''.json''
          \<longrightarrow> content state ref st
                = Inl (''Unknown text file extension: '' @ ext
                       @ ''. Cannot generate content for file: '' @ name ref))"
  using assms by (simp add: content_def promise_then_def promise_all2_def)

theorem content_cases_witness:
  "store_isTextFile (bootstrap_store\<lparr>store_ext := Inr ''.png''\<rparr>) = Inr True
   \<and> store_ext (bootstrap_store\<lparr>store_ext := Inr ''.png''\<rparr>) = Inr ''.png''
   \<and> content test_state \<lparr>name = ''test.png''\<rparr> (bootstrap_store\<lparr>store_ext := Inr ''.png''\<rparr>)
       = Inl ''Unknown text file extension: .png. Cannot generate content for file: test.png''
   \<and> content test_state \<lparr>name = ''test.js''\<rparr> (bootstrap_store\<lparr>store_ext := Inr ''.png''\<rparr>)
       = Inr (Some ''test code'')"
proof -
  let ?st = "bootstrap_store\<lparr>store_ext := Inr ''.png''\<rparr>"
  have h1: "store_isTextFile ?st = Inr True" by (simp add: bootstrap_store_def)
  have h2: "store_ext ?st = Inr ''.png''" by simp
  have c: "store_code ?st = Inr (Some ''test code'')" by (simp add: bootstrap_store_def)
  from content_cases [OF h1 h2, where ref = "\<lparr>name = ''test.png''\<rparr>" and state = test_state]
  have a: "content test_state \<lparr>name = ''test.png''\<rparr> ?st
       = Inl ''Unknown text file extension: .png. Cannot generate content for file: test.png''"
    by (simp add: test_state_def)
  from content_cases [OF h1 h2, where ref = "\<lparr>name = ''test.js''\<rparr>" and state = test_state] c
  have b: "content test_state \<lparr>name = ''test.js''\<rparr> ?st = Inr (Some ''test code'')"
    by (simp add: test_state_def)
  from h1 h2 a b show ?thesis by simp
qed

subsection \<open>url\<close>

text \<open>
  C6. The name is chosen by \<^verbatim>\<open>isTextFile\<close>, made relative to \<open>sourceRoot\<close> when it
  starts with it, and prefixed with \<open>rootUrl\<close>; but the separators are split on
  \<^verbatim>\<open>path.ext\<close>, which is \<^verbatim>\<open>undefined\<close>, so nothing is converted. With the backslash
  as separator, a file under the source root gets \<open>rootUrl\<close> followed by whatever
  \<^verbatim>\<open>path.relative\<close> returns, and the file \<^verbatim>\<open>woz.png\<close> in the directory \<^verbatim>\<open>bar\<close> of
  drive \<^verbatim>\<open>D:\<close>, outside the source root, gets a url that still holds its backslashes,
  where the conversion to \<^verbatim>\<open>/\<close> would have given
  \<^verbatim>\<open>http://localhost:3000/files/D:/bar/woz.png\<close>.
\<close>

theorem url_keeps_platform_separators:
  "url path_relative windows_state
       \<lparr>name = ''C:'' @ [backslash] @ ''foo'' @ [backslash] @ ''bar'' @ [backslash] @ ''woz.png''\<rparr>
       binary_store
     = Inr (''http://localhost:3000/files/''
            @ path_relative (''C:'' @ [backslash] @ ''foo'' @ [backslash])
                (''C:'' @ [backslash] @ ''foo'' @ [backslash] @ ''bar'' @ [backslash] @ ''woz.png''))
   \<and> url path_relative windows_state
       \<lparr>name = ''D:'' @ [backslash] @ ''bar'' @ [backslash] @ ''woz.png''\<rparr> binary_store
     = Inr (''http://localhost:3000/files/D:'' @ [backslash] @ ''bar'' @ [backslash] @ ''woz.png'')
   \<and> Inr (rootUrl windows_state
           @ spec_convert_separators backslash (''D:'' @ [backslash] @ ''bar'' @ [backslash] @ ''woz.png''))
     = (Inr ''http://localhost:3000/files/D:/bar/woz.png'' :: string result)
   \<and> url path_relative windows_state
       \<lparr>name = ''D:'' @ [backslash] @ ''bar'' @ [backslash] @ ''woz.png''\<rparr> binary_store
     \<noteq> Inr (rootUrl windows_state
            @ spec_convert_separators backslash (''D:'' @ [backslash] @ ''bar'' @ [backslash] @ ''woz.png''))"
  by (simp add: url_def windows_state_def binary_store_def rejecting_store_def
      promise_then_def startsWith_def split_undefined_def spec_convert_separators_def
      backslash_def)

subsection \<open>dependencyIdentifiers\<close>

lemma indexOf_takeWhile:
  "indexOf s c = (if c \<in> set s then int (length (takeWhile (\<lambda>d. d \<noteq> c) s)) else - 1)"
  by (induction s) (auto simp: Let_def)

text \<open>One cut keeps what comes before the first occurrence of the character.\<close>

lemma cut_takeWhile:
  "(if indexOf s c \<noteq> - 1 then slice0 s (indexOf s c) else s) = takeWhile (\<lambda>d. d \<noteq> c) s"
proof (cases "c \<in> set s")
  case True
  then have "indexOf s c = int (length (takeWhile (\<lambda>d. d \<noteq> c) s))"
    by (simp add: indexOf_takeWhile)
  then show ?thesis
    by (simp add: slice0_def takeWhile_eq_take [symmetric])
next
  case False
  then have tw: "takeWhile (\<lambda>d. d \<noteq> c) s = s" by (induction s) auto
  from False have i: "indexOf s c = - 1" by (simp add: indexOf_takeWhile)
  show ?thesis unfolding tw i by simp
qed

lemma takeWhile_twice: "takeWhile P (takeWhile Q xs) = takeWhile (\<lambda>x. Q x \<and> P x) xs"
  by (induction xs) auto

text \<open>The three cuts in a row stop at the first of the three characters.\<close>

lemma clean_identifier_strip: "clean_identifier ident = spec_strip_suffix ident"
proof -
  have "clean_identifier ident =
      takeWhile (\<lambda>d. d \<noteq> CHR ''#'') (takeWhile (\<lambda>d. d \<noteq> CHR ''?'') (takeWhile (\<lambda>d. d \<noteq> CHR ''!'') ident))"
    unfolding clean_identifier_def Let_def cut_takeWhile ..
  also have "\<dots> = spec_strip_suffix ident"
    unfolding spec_strip_suffix_def takeWhile_twice
    by (rule arg_cong [where f = "\<lambda>P. takeWhile P ident"]) auto
  finally show ?thesis .
qed

text \<open>
  C7 as stated fails when the cache object already has a \<^verbatim>\<open>dependencyIdentifiers\<close>
  property: the job returns it and does not look at \<^verbatim>\<open>analyzeDependencies\<close>.
\<close>

theorem dependencyIdentifiers_cached_counterexample:
  "store_analyzeDependencies cached_ids_store = Inr [\<lparr>source = ''foo!bar''\<rparr>]
   \<and> fst (dependencyIdentifiers cached_ids_store) = Inr [''test read cache'']
   \<and> fst (dependencyIdentifiers cached_ids_store)
       \<noteq> Inr (map spec_strip_suffix (map source [\<lparr>source = ''foo!bar''\<rparr>]))"
  by (simp add: cached_ids_store_def rejecting_store_def empty_cache_def
      dependencyIdentifiers_def spec_strip_suffix_def)

text \<open>
  C7, amended. When the cache object read by \<^verbatim>\<open>readCache\<close> has no
  \<^verbatim>\<open>dependencyIdentifiers\<close> property, \<^verbatim>\<open>dependencyIdentifiers\<close> is the list of the
  source strings of \<^verbatim>\<open>analyzeDependencies\<close>, each cut at its first \<^verbatim>\<open>!\<close>, \<^verbatim>\<open>?\<close> or
  \<^verbatim>\<open>#\<close>, and that list is stored in the cache object under
  \<^verbatim>\<open>dependencyIdentifiers\<close>. When the property is there, the job returns it as it is.
  The identifier \<^verbatim>\<open>foo!bar?x#y\<close> is cleaned to \<^verbatim>\<open>foo\<close>.
\<close>

theorem dependencyIdentifiers_cleaned:
  assumes "store_readCache st = Inr cachedData"
  shows "(cached_dependencyIdentifiers cachedData = None
            \<and> store_analyzeDependencies st = Inr deps
          \<longrightarrow> dependencyIdentifiers st
                = (Inr (map spec_strip_suffix (map source deps)),
                   Inr (cachedData\<lparr>cached_dependencyIdentifiers :=
                          Some (map spec_strip_suffix (map source deps))\<rparr>)))
       \<and> (cached_dependencyIdentifiers cachedData = Some ids
          \<longrightarrow> dependencyIdentifiers st = (Inr ids, Inr cachedData))
       \<and> clean_identifier ''foo!bar?x#y'' = ''foo''"
proof -
  have feq: "clean_identifier = spec_strip_suffix"
    by (rule ext) (rule clean_identifier_strip)
  have ex: "clean_identifier ''foo!bar?x#y'' = ''foo''"
    by (simp add: clean_identifier_def slice0_def)
  have miss: "cached_dependencyIdentifiers cachedData = None
            \<and> store_analyzeDependencies st = Inr deps
          \<longrightarrow> dependencyIdentifiers st
                = (Inr (map spec_strip_suffix (map source deps)),
                   Inr (cachedData\<lparr>cached_dependencyIdentifiers :=
                          Some (map spec_strip_suffix (map source deps))\<rparr>))"
    using assms by (simp add: dependencyIdentifiers_def Let_def feq)
  have hit: "cached_dependencyIdentifiers cachedData = Some ids
          \<longrightarrow> dependencyIdentifiers st = (Inr ids, Inr cachedData)"
    using assms by (simp add: dependencyIdentifiers_def)
  from miss hit ex show ?thesis by (intro conjI)
qed

theorem dependencyIdentifiers_cleaned_witness:
  "store_readCache fresh_ids_store = Inr empty_cache
   \<and> cached_dependencyIdentifiers empty_cache = None
   \<and> fst (dependencyIdentifiers fresh_ids_store) = Inr [''foo'', ''bar'', ''woz'']"
proof -
  have h: "store_readCache fresh_ids_store = Inr empty_cache"
    by (simp add: fresh_ids_store_def)
  have n: "cached_dependencyIdentifiers empty_cache = None"
    by (simp add: empty_cache_def)
  have a: "store_analyzeDependencies fresh_ids_store
             = Inr [\<lparr>source = ''foo!bar''\<rparr>, \<lparr>source = ''bar?foo''\<rparr>, \<lparr>source = ''woz#foo''\<rparr>]"
    by (simp add: fresh_ids_store_def)
  from dependencyIdentifiers_cleaned [OF h, of "[\<lparr>source = ''foo!bar''\<rparr>, \<lparr>source = ''bar?foo''\<rparr>, \<lparr>source = ''woz#foo''\<rparr>]"] n a
  have "fst (dependencyIdentifiers fresh_ids_store) = Inr [''foo'', ''bar'', ''woz'']"
    by (simp add: spec_strip_suffix_def)
  with h n show ?thesis by simp
qed

subsection \<open>resolvePathDependencies\<close>

text \<open>
  C8 as stated fails for a file outside the root \<^verbatim>\<open>node_modules\<close>: the job resolves
  the identifiers and overwrites the \<^verbatim>\<open>resolvePathDependencies\<close> property that the
  cache object had.
\<close>

theorem resolvePathDependencies_write_counterexample:
  "shouldCacheResolvedPathDependencies test_state \<lparr>name = ''/bar/woz.js''\<rparr> = Inr False
   \<and> store_shouldCacheResolvedPathDependencies outside_store = Inr False
   \<and> store_readCache outside_store = Inr stale_cache
   \<and> snd (resolvePathDependencies outside_store)
       = Inr (stale_cache\<lparr>cached_resolvePathDependencies := Some (zipObject [''./foo''] [''./foo test''])\<rparr>)
   \<and> the (cached_resolvePathDependencies stale_cache) ''./foo'' = None
   \<and> zipObject [''./foo''] [''./foo test''] ''./foo'' = Some ''./foo test''"
  by (simp add: outside_store_def rejecting_store_def stale_cache_def empty_cache_def
      test_state_def shouldCacheResolvedPathDependencies_def startsWith_def
      resolvePathDependencies_def promise_all2_def promise_then_def test_resolver_def
      zipObject_def)

text \<open>
  C8, amended. \<^verbatim>\<open>shouldCacheResolvedPathDependencies\<close> decides whether the cached
  property is read, not whether it is written. When it is true and the cache object
  has a \<^verbatim>\<open>resolvePathDependencies\<close> property, the job returns the property and leaves
  the cache object as it is. In every other case the job resolves the path
  identifiers; when that succeeds it stores the result under
  \<^verbatim>\<open>resolvePathDependencies\<close>, for files outside the root \<^verbatim>\<open>node_modules\<close> as well,
  and when it fails the cache object is left as it is.
\<close>

theorem resolvePathDependencies_cache_write:
  assumes "store_readCache st = Inr cachedData"
    and "store_shouldCacheResolvedPathDependencies st = Inr shouldCache"
  shows "(shouldCache \<and> cached_resolvePathDependencies cachedData = Some cached
          \<longrightarrow> resolvePathDependencies st = (Inr cached, Inr cachedData))
       \<and> (\<not> (shouldCache \<and> cached_resolvePathDependencies cachedData \<noteq> None)
            \<and> store_pathDependencyIdentifiers st = Inr ids
            \<and> store_resolver st = Inr resolver
            \<and> promise_all (map resolver ids) = Inr resolved
          \<longrightarrow> resolvePathDependencies st
                = (Inr (zipObject ids resolved),
                   Inr (cachedData\<lparr>cached_resolvePathDependencies := Some (zipObject ids resolved)\<rparr>)))
       \<and> (fst (resolvePathDependencies st) = Inl e
          \<longrightarrow> snd (resolvePathDependencies st) = Inr cachedData)"
  using assms
  by (auto simp: resolvePathDependencies_def promise_all2_def promise_then_def
      split: sum.splits)

theorem resolvePathDependencies_cache_write_witness:
  "store_readCache outside_store = Inr stale_cache
   \<and> store_shouldCacheResolvedPathDependencies outside_store = Inr False
   \<and> resolvePathDependencies outside_store
       = (Inr (zipObject [''./foo''] [''./foo test'']),
          Inr (stale_cache\<lparr>cached_resolvePathDependencies := Some (zipObject [''./foo''] [''./foo test''])\<rparr>))"
proof -
  have h1: "store_readCache outside_store = Inr stale_cache"
    by (simp add: outside_store_def)
  have h2: "store_shouldCacheResolvedPathDependencies outside_store = Inr False"
    by (simp add: outside_store_def shouldCacheResolvedPathDependencies_def
        startsWith_def test_state_def)
  have h3: "store_pathDependencyIdentifiers outside_store = Inr [''./foo'']"
    and h4: "store_resolver outside_store = Inr test_resolver"
    and h5: "promise_all (map test_resolver [''./foo'']) = Inr [''./foo test'']"
    by (simp_all add: outside_store_def test_resolver_def)
  from resolvePathDependencies_cache_write [OF h1 h2, where ids = "[''./foo'']"
      and resolver = test_resolver and resolved = "[''./foo test'']"]
    h3 h4 h5
  have "resolvePathDependencies outside_store
       = (Inr (zipObject [''./foo''] [''./foo test'']),
          Inr (stale_cache\<lparr>cached_resolvePathDependencies := Some (zipObject [''./foo''] [''./foo test''])\<rparr>))"
    by simp
  with h1 h2 show ?thesis by simp
qed

section \<open>Properties of the dependency graph\<close>

subsection \<open>What each operation leaves alone\<close>

lemma emit_fields [simp]:
  "nodes (emit e g) = nodes g" "permanentNodes (emit e g) = permanentNodes g"
  "pendingJobs (emit e g) = pendingJobs g" "jobs (emit e g) = jobs g"
  "nextJob (emit e g) = nextJob g" "nextTickQueue (emit e g) = nextTickQueue g"
  "inFlight (emit e g) = inFlight g" "events (emit e g) = events g @ [e]"
  by (simp_all add: emit_def)

lemma removeJob_fields [simp]:
  "nodes (removeJob j g) = nodes g" "permanentNodes (removeJob j g) = permanentNodes g"
  "pendingJobs (removeJob j g) = removeAll j (pendingJobs g)" "jobs (removeJob j g) = jobs g"
  "nextJob (removeJob j g) = nextJob g" "nextTickQueue (removeJob j g) = nextTickQueue g"
  "inFlight (removeJob j g) = inFlight g" "events (removeJob j g) = events g"
  by (simp_all add: removeJob_def)

lemma traceNode_fields [simp]:
  "nodes (traceNode n g) = nodes g" "permanentNodes (traceNode n g) = permanentNodes g"
  "pendingJobs (traceNode n g) = pendingJobs g @ [nextJob g]"
  "jobs (traceNode n g) = (jobs g)(nextJob g := \<lparr>job_node = n, isValid = True\<rparr>)"
  "nextJob (traceNode n g) = Suc (nextJob g)"
  "nextTickQueue (traceNode n g) = nextTickQueue g @ [StartTracingNode (nextJob g)]"
  "inFlight (traceNode n g) = inFlight g" "events (traceNode n g) = events g"
  by (simp_all add: traceNode_def Let_def)

lemma prunePendingJobsAndEmit_fields [simp]:
  "nodes (prunePendingJobsAndEmit n g) = nodes g"
  "permanentNodes (prunePendingJobsAndEmit n g) = permanentNodes g"
  "pendingJobs (prunePendingJobsAndEmit n g) = pendingJobs g"
  "nextJob (prunePendingJobsAndEmit n g) = nextJob g"
  "nextTickQueue (prunePendingJobsAndEmit n g) = nextTickQueue g"
  "inFlight (prunePendingJobsAndEmit n g) = inFlight g"
  "events (prunePendingJobsAndEmit n g) = events g @ [Pruned n]"
  "jobs (prunePendingJobsAndEmit n g) j =
     (if j \<in> set (pendingJobs g) \<and> job_node (jobs g j) = n
      then (jobs g j)\<lparr>isValid := False\<rparr> else jobs g j)"
  by (simp_all add: prunePendingJobsAndEmit_def)

text \<open>
  One round of the \<^verbatim>\<open>forEach\<close> loop emits nothing, queues no completion check, and
  leaves the existing job objects as they are; it may create a job.
\<close>

lemma forEachDependency_fields:
  assumes "forEachDependency n (g, added) d = (g', added')"
  shows "events g' = events g" "permanentNodes g' = permanentNodes g" "inFlight g' = inFlight g"
    "nextJob g \<le> nextJob g'" "\<forall>i < nextJob g. jobs g' i = jobs g i"
    "filter (\<lambda>t. t = CompleteCheck) (nextTickQueue g') = filter (\<lambda>t. t = CompleteCheck) (nextTickQueue g)"
  using assms
  by (auto simp: forEachDependency_def Let_def split: if_splits prod.splits)

lemma foldl_forEachDependency_fields:
  assumes "foldl (forEachDependency n) (g, added) ds = (g', added')"
  shows "events g' = events g \<and> permanentNodes g' = permanentNodes g \<and> inFlight g' = inFlight g
    \<and> nextJob g \<le> nextJob g' \<and> (\<forall>i < nextJob g. jobs g' i = jobs g i)
    \<and> filter (\<lambda>t. t = CompleteCheck) (nextTickQueue g') = filter (\<lambda>t. t = CompleteCheck) (nextTickQueue g)"
  using assms
proof (induction ds arbitrary: g added)
  case Nil
  then show ?case by simp
next
  case (Cons d ds)
  obtain g1 added1 where s: "forEachDependency n (g, added) d = (g1, added1)"
    by (cases "forEachDependency n (g, added) d")
  with Cons.prems have "foldl (forEachDependency n) (g1, added1) ds = (g', added')" by simp
  from Cons.IH [OF this] forEachDependency_fields [OF s]
  show ?case by auto
qed

lemma foldl_emit_Added_fields:
  "nodes (foldl (\<lambda>g a. emit (Added a) g) g xs) = nodes g"
  "pendingJobs (foldl (\<lambda>g a. emit (Added a) g) g xs) = pendingJobs g"
  "jobs (foldl (\<lambda>g a. emit (Added a) g) g xs) = jobs g"
  "nextJob (foldl (\<lambda>g a. emit (Added a) g) g xs) = nextJob g"
  "nextTickQueue (foldl (\<lambda>g a. emit (Added a) g) g xs) = nextTickQueue g"
  "events (foldl (\<lambda>g a. emit (Added a) g) g xs) = events g @ map Added xs"
  by (induction xs arbitrary: g) simp_all

lemma foldl_prune_fields:
  "nodes (foldl (\<lambda>g p. prunePendingJobsAndEmit p g) g ps) = nodes g"
  "permanentNodes (foldl (\<lambda>g p. prunePendingJobsAndEmit p g) g ps) = permanentNodes g"
  "pendingJobs (foldl (\<lambda>g p. prunePendingJobsAndEmit p g) g ps) = pendingJobs g"
  "nextJob (foldl (\<lambda>g p. prunePendingJobsAndEmit p g) g ps) = nextJob g"
  "nextTickQueue (foldl (\<lambda>g p. prunePendingJobsAndEmit p g) g ps) = nextTickQueue g"
  "inFlight (foldl (\<lambda>g p. prunePendingJobsAndEmit p g) g ps) = inFlight g"
  "events (foldl (\<lambda>g p. prunePendingJobsAndEmit p g) g ps) = events g @ map Pruned ps"
  by (induction ps arbitrary: g) simp_all

lemma foldl_prune_jobs:
  "job_node (jobs (foldl (\<lambda>g p. prunePendingJobsAndEmit p g) g ps) j) = job_node (jobs g j)"
  "\<not> isValid (jobs g j) \<Longrightarrow> \<not> isValid (jobs (foldl (\<lambda>g p. prunePendingJobsAndEmit p g) g ps) j)"
  by (induction ps arbitrary: g) simp_all

text \<open>The callback of a valid job without an error, with its loops named.\<close>

lemma callback_valid_unfold:
  assumes "isValid (jobs g j)"
  shows "\<exists>g3 a3.
      getDependenciesCallback j (Inr deps) g
       = (foldl (\<lambda>g a. emit (Added a) g) g3 a3)
           \<lparr>nextTickQueue := nextTickQueue (foldl (\<lambda>g a. emit (Added a) g) g3 a3) @ [CompleteCheck]\<rparr>
    \<and> events g3 = events g \<and> nextJob g \<le> nextJob g3
    \<and> (\<forall>i < nextJob g. jobs g3 i = jobs g i)
    \<and> filter (\<lambda>t. t = CompleteCheck) (nextTickQueue g3)
           = filter (\<lambda>t. t = CompleteCheck) (nextTickQueue g)"
proof -
  define n where "n = job_node (jobs g j)"
  define g2 where "g2 = (if \<not> isNodeDefined (nodes (removeJob j g)) n
                     then (removeJob j g)\<lparr>nodes := addNode (nodes (removeJob j g)) n\<rparr>
                     else removeJob j g)"
  define a2 where "a2 = (if \<not> isNodeDefined (nodes (removeJob j g)) n then [n] else [])"
  obtain g3 a3 where f: "foldl (forEachDependency n) (g2, a2) deps = (g3, a3)"
    by (cases "foldl (forEachDependency n) (g2, a2) deps")
  have eq: "getDependenciesCallback j (Inr deps) g
      = (foldl (\<lambda>g a. emit (Added a) g) g3 a3)
          \<lparr>nextTickQueue := nextTickQueue (foldl (\<lambda>g a. emit (Added a) g) g3 a3) @ [CompleteCheck]\<rparr>"
    using assms f
    by (auto simp: getDependenciesCallback_def Let_def n_def g2_def a2_def split: if_splits)
  have g2: "nextJob g2 = nextJob g" "jobs g2 = jobs g" "events g2 = events g"
    "nextTickQueue g2 = nextTickQueue g"
    by (simp_all add: g2_def)
  from foldl_forEachDependency_fields [OF f] g2
  have "events g3 = events g \<and> nextJob g \<le> nextJob g3
    \<and> (\<forall>i < nextJob g. jobs g3 i = jobs g i)
    \<and> filter (\<lambda>t. t = CompleteCheck) (nextTickQueue g3)
           = filter (\<lambda>t. t = CompleteCheck) (nextTickQueue g)"
    by simp
  with eq show ?thesis by blast
qed

subsection \<open>Errors of the dependency resolution\<close>

text \<open>
  C10. When \<^verbatim>\<open>getDependencies\<close> calls back with an error for a job in flight, the
  graph emits \<^verbatim>\<open>error\<close> with the error and the node of the job, the job is removed
  from \<open>pendingJobs\<close>, and the nodes are not touched. Nothing is assumed about
  \<open>isValid\<close>: a job cancelled while in flight reports its error all the same.
\<close>

theorem callback_error_emits_error:
  assumes "j \<in> set (inFlight g)"
  shows "\<exists>g'. step (Callback j (Inl err)) g = Some g'
          \<and> events g' = events g @ [Error err (job_node (jobs g j))]
          \<and> pendingJobs g' = removeAll j (pendingJobs g)
          \<and> j \<notin> set (pendingJobs g')
          \<and> nodes g' = nodes g"
  using assms by (simp add: step_def getDependenciesCallback_def Let_def)

theorem callback_error_emits_error_witness:
  "0 \<in> set (inFlight (after invalidated_in_flight_run))
   \<and> \<not> isValid (jobs (after invalidated_in_flight_run) 0)
   \<and> (\<exists>g'. step (Callback 0 (Inl ''ENOENT'')) (after invalidated_in_flight_run) = Some g'
         \<and> events g' = [Pruned ''A'', Error ''ENOENT'' ''A'']
         \<and> pendingJobs g' = []
         \<and> nodes g' = [])"
proof -
  let ?g = "after invalidated_in_flight_run"
  have h: "0 \<in> set (inFlight ?g)" and v: "\<not> isValid (jobs ?g 0)"
    unfolding after_def invalidated_in_flight_run_def by code_simp+
  have f: "events ?g = [Pruned ''A'']" "job_node (jobs ?g 0) = ''A''" "pendingJobs ?g = [0]"
    "nodes ?g = []"
    unfolding after_def invalidated_in_flight_run_def by code_simp+
  from callback_error_emits_error [OF h, of "''ENOENT''"] f h v show ?thesis by auto
qed

subsection \<open>Cancelled jobs\<close>

text \<open>No operation touches a job object other than to cancel it.\<close>

lemma callback_jobs:
  "nextJob g \<le> nextJob (getDependenciesCallback j res g)
   \<and> (\<forall>i < nextJob g. jobs (getDependenciesCallback j res g) i = jobs g i)"
proof (cases res)
  case (Inl err)
  then show ?thesis by (simp add: getDependenciesCallback_def Let_def)
next
  case (Inr deps)
  show ?thesis
  proof (cases "isValid (jobs g j)")
    case False
    with Inr show ?thesis by (simp add: getDependenciesCallback_def Let_def)
  next
    case True
    from callback_valid_unfold [OF True, of deps]
    obtain g3 a3 where eq: "getDependenciesCallback j (Inr deps) g
       = (foldl (\<lambda>g a. emit (Added a) g) g3 a3)
           \<lparr>nextTickQueue := nextTickQueue (foldl (\<lambda>g a. emit (Added a) g) g3 a3) @ [CompleteCheck]\<rparr>"
      and g3: "nextJob g \<le> nextJob g3" "\<forall>i < nextJob g. jobs g3 i = jobs g i"
      by blast
    from g3 show ?thesis
      unfolding Inr eq by (simp add: foldl_emit_Added_fields)
  qed
qed

lemma step_allocated_invalid:
  assumes "step a g = Some g'" and "allocated_invalid j g"
  shows "allocated_invalid j g'"
proof (cases a)
  case (TraceNode n)
  with assms show ?thesis by (auto simp: step_def allocated_invalid_def)
next
  case (SetNodeAsPermanent n)
  with assms show ?thesis by (auto simp: step_def allocated_invalid_def setNodeAsPermanent_def)
next
  case (PruneNode n)
  with assms show ?thesis
    by (auto simp: step_def allocated_invalid_def pruneNode_def foldl_prune_fields
        foldl_prune_jobs split: prod.splits if_splits)
next
  case NextTick
  with assms show ?thesis
    by (auto simp: step_def allocated_invalid_def startTracingNode_def completeCheck_def
        split: list.splits tick.splits if_splits)
next
  case (Callback i res)
  with assms have g': "g' = getDependenciesCallback i res (g\<lparr>inFlight := remove1 i (inFlight g)\<rparr>)"
    by (auto simp: step_def split: if_splits)
  from callback_jobs [of "g\<lparr>inFlight := remove1 i (inFlight g)\<rparr>" i res] assms(2)
  show ?thesis unfolding g' allocated_invalid_def by auto
qed

lemma run_allocated_invalid:
  "run as g = Some g' \<Longrightarrow> allocated_invalid j g \<Longrightarrow> allocated_invalid j g'"
proof (induction as arbitrary: g)
  case Nil
  then show ?case by simp
next
  case (Cons a as)
  then obtain g1 where s: "step a g = Some g1" and r: "run as g1 = Some g'"
    by (auto split: option.splits)
  from Cons.IH [OF r step_allocated_invalid [OF s Cons.prems(2)]] show ?case .
qed

text \<open>What the two checks of a cancelled job amount to.\<close>

lemma invalid_job_inert:
  assumes "\<not> isValid (jobs g j)"
  shows "nodes (startTracingNode j g) = nodes g"
    and "events (startTracingNode j g) = events g"
    and "inFlight (startTracingNode j g) = inFlight g"
    and "nodes (getDependenciesCallback j res g) = nodes g"
    and "filter is_added (events (getDependenciesCallback j res g)) = filter is_added (events g)"
  using assms
  by (auto simp: startTracingNode_def getDependenciesCallback_def Let_def is_added_def
      split: sum.splits)

text \<open>
  C4. Once the \<open>isValid\<close> flag of a job is false it stays false, whatever happens to
  the graph afterwards. From then on the pre-dispatch check of the job
  (\<^verbatim>\<open>startTracingNode\<close>) leaves the nodes with their edges and the event log as they
  are and does not call \<^verbatim>\<open>getDependencies\<close>, and the post-dispatch check (the
  callback of \<^verbatim>\<open>getDependencies\<close>, with an error or with dependencies) leaves the nodes
  with their edges as they are and emits no \<^verbatim>\<open>added\<close> event, for the node of the job or
  for any other.
\<close>

theorem invalidated_job_never_mutates:
  assumes "j < nextJob g" and "\<not> isValid (jobs g j)" and "run as g = Some g'"
  shows "\<not> isValid (jobs g' j)
       \<and> nodes (startTracingNode j g') = nodes g'
       \<and> events (startTracingNode j g') = events g'
       \<and> inFlight (startTracingNode j g') = inFlight g'
       \<and> nodes (getDependenciesCallback j res g') = nodes g'
       \<and> filter is_added (events (getDependenciesCallback j res g')) = filter is_added (events g')"
proof -
  from assms have "allocated_invalid j g" by (simp add: allocated_invalid_def)
  from run_allocated_invalid [OF assms(3) this] have inv: "\<not> isValid (jobs g' j)"
    by (simp add: allocated_invalid_def)
  with invalid_job_inert [OF inv] show ?thesis by simp
qed

theorem invalidated_job_never_mutates_witness:
  "0 < nextJob (after invalidated_in_flight_run)
   \<and> \<not> isValid (jobs (after invalidated_in_flight_run) 0)
   \<and> run [TraceNode ''B''] (after invalidated_in_flight_run)
       = Some (traceNode ''B'' (after invalidated_in_flight_run))
   \<and> \<not> isValid (jobs (traceNode ''B'' (after invalidated_in_flight_run)) 0)
   \<and> nodes (getDependenciesCallback 0 (Inr [''B'']) (traceNode ''B'' (after invalidated_in_flight_run)))
       = []
   \<and> filter is_added
        (events (getDependenciesCallback 0 (Inr [''B'']) (traceNode ''B'' (after invalidated_in_flight_run))))
       = []"
proof -
  let ?g = "after invalidated_in_flight_run"
  let ?g' = "traceNode ''B'' ?g"
  have h1: "0 < nextJob ?g" and h2: "\<not> isValid (jobs ?g 0)"
    unfolding after_def invalidated_in_flight_run_def by code_simp+
  have h3: "run [TraceNode ''B''] ?g = Some ?g'" by (simp add: step_def)
  have n: "nodes ?g' = []" "filter is_added (events ?g') = []"
    unfolding after_def invalidated_in_flight_run_def by code_simp+
  from invalidated_job_never_mutates [OF h1 h2 h3, of "Inr [''B'']"] n h1 h2 h3
  show ?thesis by simp
qed

subsection \<open>The complete event\<close>

lemma callback_complete:
  "count_complete (events (getDependenciesCallback j res g)) = count_complete (events g)
   \<and> count_checks (nextTickQueue (getDependenciesCallback j res g))
       = count_checks (nextTickQueue g)
         + (if schedules_check (Callback j res) g then 1 else 0)"
proof (cases res)
  case (Inl err)
  then show ?thesis
    by (simp add: getDependenciesCallback_def Let_def count_complete_def schedules_check_def)
next
  case (Inr deps)
  show ?thesis
  proof (cases "isValid (jobs g j)")
    case False
    with Inr show ?thesis
      by (simp add: getDependenciesCallback_def Let_def schedules_check_def)
  next
    case True
    have noc: "filter (\<lambda>e. e = Complete) (map Added a3) = []" for a3
      by (induction a3) simp_all
    from callback_valid_unfold [OF True, of deps]
    obtain g3 a3 where eq: "getDependenciesCallback j (Inr deps) g
       = (foldl (\<lambda>g a. emit (Added a) g) g3 a3)
           \<lparr>nextTickQueue := nextTickQueue (foldl (\<lambda>g a. emit (Added a) g) g3 a3) @ [CompleteCheck]\<rparr>"
      and g3: "events g3 = events g"
        "filter (\<lambda>t. t = CompleteCheck) (nextTickQueue g3)
           = filter (\<lambda>t. t = CompleteCheck) (nextTickQueue g)"
      by blast
    from g3 True noc show ?thesis
      unfolding Inr eq
      by (simp add: foldl_emit_Added_fields count_complete_def count_checks_def
          schedules_check_def)
  qed
qed

lemma prune_complete:
  "count_complete (events (pruneNode n g)) = count_complete (events g)
   \<and> nextTickQueue (pruneNode n g) = nextTickQueue g"
proof -
  have "filter (\<lambda>e. e = Complete) (map Pruned ps) = []" for ps
    by (induction ps) simp_all
  then show ?thesis
    by (auto simp: pruneNode_def foldl_prune_fields count_complete_def split: prod.splits)
qed

text \<open>
  C3 as stated fails twice over. In \<open>two_entries_run\<close> both jobs finish before
  the first completion check runs: \<open>pendingJobs\<close> drains once and \<^verbatim>\<open>complete\<close> is
  emitted twice. In \<open>failing_run\<close> the only job ends with an error: a trace has been
  dispatched, \<open>pendingJobs\<close> is empty, nothing is queued or in flight, and
  \<^verbatim>\<open>complete\<close> has not been emitted.
\<close>

theorem complete_twice_counterexample:
  "run two_entries_run createGraph \<noteq> None
   \<and> drains two_entries_run createGraph = 1
   \<and> count_complete (events (after two_entries_run)) = 2
   \<and> \<not> count_complete (events (after two_entries_run)) \<le> drains two_entries_run createGraph
   \<and> run failing_run createGraph \<noteq> None
   \<and> pendingJobs (after failing_run) = []
   \<and> nextTickQueue (after failing_run) = []
   \<and> inFlight (after failing_run) = []
   \<and> count_complete (events (after failing_run)) = 0"
  unfolding after_def two_entries_run_def failing_run_def by code_simp

text \<open>
  C3, amended. \<^verbatim>\<open>complete\<close> is emitted by the completion checks and by nothing
  else: a step adds one \<^verbatim>\<open>complete\<close> to the log when it runs a completion check
  that finds \<open>pendingJobs\<close> empty, and none otherwise. One completion check is queued
  by each callback of \<^verbatim>\<open>getDependencies\<close> that reports no error for a job that is
  still valid, and by nothing else; each check runs once. So \<^verbatim>\<open>complete\<close> is only
  emitted while \<open>pendingJobs\<close> is empty, once for every queued check that finds it so.
\<close>

theorem complete_emitted_by_checks:
  assumes "step a g = Some g'"
  shows "count_complete (events g')
           = count_complete (events g) + (if emits_complete a g then 1 else 0)
       \<and> count_checks (nextTickQueue g') + (if runs_check a g then 1 else 0)
           = count_checks (nextTickQueue g) + (if schedules_check a g then 1 else 0)"
proof (cases a)
  case (TraceNode n)
  with assms show ?thesis
    by (auto simp: step_def emits_complete_def runs_check_def schedules_check_def count_checks_def)
next
  case (SetNodeAsPermanent n)
  with assms show ?thesis
    by (auto simp: step_def emits_complete_def runs_check_def schedules_check_def
        setNodeAsPermanent_def)
next
  case (PruneNode n)
  with assms prune_complete [of n g] show ?thesis
    by (auto simp: step_def emits_complete_def runs_check_def schedules_check_def)
next
  case NextTick
  with assms show ?thesis
    by (auto simp: step_def emits_complete_def runs_check_def schedules_check_def
        startTracingNode_def completeCheck_def count_complete_def count_checks_def
        split: list.splits tick.splits if_splits)
next
  case (Callback i res)
  with assms have g': "g' = getDependenciesCallback i res (g\<lparr>inFlight := remove1 i (inFlight g)\<rparr>)"
    by (auto simp: step_def split: if_splits)
  have sc: "schedules_check (Callback i res) (g\<lparr>inFlight := remove1 i (inFlight g)\<rparr>)
      = schedules_check (Callback i res) g"
    by (simp add: schedules_check_def split: sum.splits)
  from callback_complete [of i res "g\<lparr>inFlight := remove1 i (inFlight g)\<rparr>"] Callback
  show ?thesis unfolding g' sc by (simp add: emits_complete_def runs_check_def)
qed

theorem complete_emitted_by_checks_witness:
  "step NextTick (after before_checks_run)
     = Some (completeCheck ((after before_checks_run)\<lparr>nextTickQueue := [CompleteCheck]\<rparr>))
   \<and> emits_complete NextTick (after before_checks_run)
   \<and> count_complete (events (after before_checks_run)) = 0
   \<and> count_complete
        (events (completeCheck ((after before_checks_run)\<lparr>nextTickQueue := [CompleteCheck]\<rparr>))) = 1
   \<and> count_checks (nextTickQueue (after before_checks_run)) = 2
   \<and> count_checks
        (nextTickQueue (completeCheck ((after before_checks_run)\<lparr>nextTickQueue := [CompleteCheck]\<rparr>))) = 1"
proof -
  let ?g = "after before_checks_run"
  let ?g' = "completeCheck (?g\<lparr>nextTickQueue := [CompleteCheck]\<rparr>)"
  have q: "nextTickQueue ?g = [CompleteCheck, CompleteCheck]"
    unfolding after_def before_checks_run_def by code_simp
  then have h: "step NextTick ?g = Some ?g'" by (simp add: step_def)
  have e: "emits_complete NextTick ?g" "runs_check NextTick ?g" "\<not> schedules_check NextTick ?g"
    unfolding after_def before_checks_run_def by code_simp+
  have c: "count_complete (events ?g) = 0" "count_checks (nextTickQueue ?g) = 2"
    unfolding after_def before_checks_run_def by code_simp+
  from complete_emitted_by_checks [OF h] e c h show ?thesis by simp
qed

subsection \<open>Pruning twice\<close>

lemma not_pending_after_prune:
  "\<not> isNodePending (jobs (prunePendingJobsAndEmit n g)) (pendingJobs g) n"
  by (auto simp: isNodePending_def list_ex_iff)

lemma foldl_prune_not_pending:
  "\<not> isNodePending (jobs g) (pendingJobs g) n
   \<Longrightarrow> \<not> isNodePending (jobs (foldl (\<lambda>g p. prunePendingJobsAndEmit p g) g ps)) (pendingJobs g) n"
  by (auto simp: isNodePending_def list_ex_iff foldl_prune_jobs)

lemma remove_nodes_keys: "set (map fst (remove_nodes removed ns)) = set (map fst ns) - set removed"
  by (force simp: remove_nodes_def)

lemma pruneFromNode_removes:
  "pruneFromNode ns n ignore = (prunedNodes, ns')
   \<Longrightarrow> \<not> isNodeDefined ns' n \<and> hd prunedNodes = n \<and> prunedNodes \<noteq> []"
  by (auto simp: pruneFromNode_def Let_def isNodeDefined_def remove_nodes_keys simp del: set_map)

text \<open>
  After \<^verbatim>\<open>pruneNode(n)\<close> the node \<open>n\<close> is neither defined nor pending, so a second
  call finds nothing to do.
\<close>

lemma pruneNode_idem: "pruneNode n (pruneNode n g) = pruneNode n g"
proof (cases "isNodeDefined (nodes g) n")
  case True
  obtain prunedNodes ns' where p: "pruneFromNode (nodes g) n (permanentNodes g) = (prunedNodes, ns')"
    by (cases "pruneFromNode (nodes g) n (permanentNodes g)")
  from pruneFromNode_removes [OF p] obtain ps where ps: "prunedNodes = n # ps"
    and undef: "\<not> isNodeDefined ns' n" by (cases prunedNodes) auto
  define g1 where "g1 = prunePendingJobsAndEmit n (g\<lparr>nodes := ns'\<rparr>)"
  have eq: "pruneNode n g = foldl (\<lambda>g p. prunePendingJobsAndEmit p g) g1 ps"
    using True p ps by (simp add: pruneNode_def g1_def)
  have "\<not> isNodePending (jobs g1) (pendingJobs g1) n"
    using not_pending_after_prune [of n "g\<lparr>nodes := ns'\<rparr>"] by (simp add: g1_def)
  from foldl_prune_not_pending [OF this, of ps]
  have np: "\<not> isNodePending (jobs (pruneNode n g)) (pendingJobs (pruneNode n g)) n"
    by (simp add: eq foldl_prune_fields)
  have "nodes (pruneNode n g) = ns'"
    by (simp add: eq foldl_prune_fields g1_def)
  with undef np show ?thesis by (simp add: pruneNode_def [of n "pruneNode n g"])
next
  case False
  show ?thesis
  proof (cases "isNodePending (jobs g) (pendingJobs g) n")
    case True
    with False have eq: "pruneNode n g = prunePendingJobsAndEmit n g" by (simp add: pruneNode_def)
    from not_pending_after_prune [of n g] False
    show ?thesis unfolding eq by (simp add: pruneNode_def [of n "prunePendingJobsAndEmit n g"])
  next
    case False': False
    with False show ?thesis by (simp add: pruneNode_def)
  qed
qed

text \<open>
  C9. Calling \<^verbatim>\<open>pruneNode(n)\<close> a second time changes nothing: the whole graph record
  (nodes, permanent roots, the validity of the pending jobs, and the event log too) is
  what the first call left. Calling \<^verbatim>\<open>setNodeAsPermanent(n)\<close> a second time changes
  nothing either; \<open>n\<close> is among the permanent roots afterwards, and a root list
  without duplicates stays without duplicates.
\<close>

theorem prune_and_setPermanent_idempotent:
  "pruneNode n (pruneNode n g) = pruneNode n g
   \<and> setNodeAsPermanent n (setNodeAsPermanent n g) = setNodeAsPermanent n g
   \<and> (distinct (permanentNodes g) \<longrightarrow> distinct (permanentNodes (setNodeAsPermanent n g)))
   \<and> n \<in> set (permanentNodes (setNodeAsPermanent n g))"
  by (simp add: pruneNode_idem setNodeAsPermanent_def ensureNodeIsPermanent_def)

theorem prune_and_setPermanent_idempotent_witness:
  "distinct (permanentNodes (after cycle_run))
   \<and> distinct (permanentNodes (setNodeAsPermanent ''C'' (after cycle_run)))
   \<and> permanentNodes (setNodeAsPermanent ''C'' (setNodeAsPermanent ''C'' (after cycle_run))) = [''C'']
   \<and> events (pruneNode ''A'' (pruneNode ''A'' (after cycle_run)))
       = events (pruneNode ''A'' (after cycle_run))"
proof -
  have d: "distinct (permanentNodes (after cycle_run))"
    unfolding after_def cycle_run_def by code_simp
  have p: "permanentNodes (setNodeAsPermanent ''C'' (after cycle_run)) = [''C'']"
    unfolding after_def cycle_run_def by code_simp
  from prune_and_setPermanent_idempotent [of "''C''" "after cycle_run"] d
  have "distinct (permanentNodes (setNodeAsPermanent ''C'' (after cycle_run)))"
    and "setNodeAsPermanent ''C'' (setNodeAsPermanent ''C'' (after cycle_run))
          = setNodeAsPermanent ''C'' (after cycle_run)"
    by simp_all
  moreover from prune_and_setPermanent_idempotent [of "''A''" "after cycle_run"]
  have "pruneNode ''A'' (pruneNode ''A'' (after cycle_run)) = pruneNode ''A'' (after cycle_run)"
    by simp
  ultimately show ?thesis using d p by simp
qed

subsection \<open>Reachability after a prune\<close>

lemma isNodeDefined_ids: "isNodeDefined ns n \<longleftrightarrow> n \<in> node_ids ns"
  by (simp add: isNodeDefined_def node_ids_def)

lemma edges_iff:
  "(a, b) \<in> set (graph_edges ns)
   \<longleftrightarrow> (\<exists>nd. (a, nd) \<in> set ns \<and> b \<in> set (dependencies nd) \<and> b \<in> node_ids ns)"
  by (auto simp: graph_edges_def isNodeDefined_ids)

lemma remove_nodes_ids: "node_ids (remove_nodes removed ns) = node_ids ns - set removed"
  by (simp add: node_ids_def remove_nodes_keys del: set_map)

text \<open>Removing nodes keeps exactly the edges between the nodes that stay.\<close>

lemma remove_nodes_edges:
  "(a, b) \<in> set (graph_edges (remove_nodes removed ns))
   \<longleftrightarrow> (a, b) \<in> set (graph_edges ns) \<and> a \<notin> set removed \<and> b \<notin> set removed"
proof -
  have "(\<exists>nd. (a, nd) \<in> set (remove_nodes removed ns) \<and> b \<in> set (dependencies nd))
        \<longleftrightarrow> (\<exists>nd. (a, nd) \<in> set ns \<and> b \<in> set (dependencies nd)) \<and> a \<notin> set removed \<and> b \<notin> set removed"
    by (force simp: remove_nodes_def)
  then show ?thesis
    unfolding edges_iff remove_nodes_ids by auto
qed

lemma reachable_rtrancl: "reachable ns a b \<longleftrightarrow> (a, b) \<in> (set (graph_edges ns))\<^sup>*"
  unfolding reachable_def by (auto dest: rtranclD)

lemma edge_defined:
  "(a, b) \<in> set (graph_edges ns) \<Longrightarrow> a \<in> node_ids ns \<and> b \<in> node_ids ns"
  by (force simp: edges_iff node_ids_def)

lemma reachable_from_undefined:
  "(a, b) \<in> (set (graph_edges ns))\<^sup>* \<Longrightarrow> a \<notin> node_ids ns \<Longrightarrow> b = a"
  by (induction rule: rtrancl_induct) (auto dest: edge_defined)

text \<open>A path to \<open>y\<close> does not pass through \<open>x\<close> unless \<open>x\<close> reaches \<open>y\<close>.\<close>

lemma path_avoids:
  assumes "(p, y) \<in> (set (graph_edges ns))\<^sup>*" and "(x, y) \<notin> (set (graph_edges ns))\<^sup>*"
  shows "p \<noteq> x \<and> (p, y) \<in> (set (graph_edges (remove_nodes [x] ns)))\<^sup>*"
  using assms
proof (induction rule: converse_rtrancl_induct)
  case base
  then show ?case by auto
next
  case (step p q)
  then have q: "q \<noteq> x" "(q, y) \<in> (set (graph_edges (remove_nodes [x] ns)))\<^sup>*" by auto
  have p: "p \<noteq> x"
  proof
    assume "p = x"
    with step.hyps have "(x, y) \<in> (set (graph_edges ns))\<^sup>*"
      by (auto intro: converse_rtrancl_into_rtrancl)
    with step.prems show False by simp
  qed
  with q step.hyps(1) have "(p, q) \<in> set (graph_edges (remove_nodes [x] ns))"
    by (simp add: remove_nodes_edges)
  with q p show ?case by (auto intro: converse_rtrancl_into_rtrancl)
qed

lemma live_iff:
  "live ns x perm y \<longleftrightarrow>
     (\<exists>p \<in> set perm. p \<in> node_ids ns \<and> p \<noteq> x
        \<and> (p, y) \<in> (set (graph_edges (remove_nodes [x] ns)))\<^sup>*)"
  by (auto simp: live_def reachable_from_roots_def list_ex_iff isNodeDefined_ids remove_nodes_ids
      reachable_rtrancl)

lemma pruneFromNode_pruned:
  "pruneFromNode ns x perm = (prunedNodes, ns') \<Longrightarrow>
     ns' = remove_nodes prunedNodes ns
     \<and> set prunedNodes
         = insert x {y \<in> node_ids ns. y \<noteq> x \<and> reachable ns x y \<and> \<not> live ns x perm y}"
  by (force simp: pruneFromNode_def Let_def live_def node_ids_def)

text \<open>A path from a permanent root, taken in the graph without \<open>x\<close>, survives the prune.\<close>

lemma live_path_survives:
  assumes pr: "pruneFromNode ns x perm = (prunedNodes, ns')"
    and p: "p \<in> set perm" "p \<in> node_ids ns" "p \<noteq> x"
    and path: "(p, y) \<in> (set (graph_edges (remove_nodes [x] ns)))\<^sup>*"
  shows "(p, y) \<in> (set (graph_edges ns'))\<^sup>* \<and> y \<notin> set prunedNodes"
  using path
proof (induction rule: rtrancl_induct)
  case base
  have "live ns x perm p" using p by (auto simp: live_iff)
  with p pruneFromNode_pruned [OF pr] show ?case by auto
next
  case (step y z)
  from step.hyps(1) step.hyps(2) have "(p, z) \<in> (set (graph_edges (remove_nodes [x] ns)))\<^sup>*"
    by (rule rtrancl_into_rtrancl)
  with p have "live ns x perm z" by (auto simp: live_iff)
  moreover from step.hyps(2) have "z \<noteq> x" "(y, z) \<in> set (graph_edges ns)"
    by (simp_all add: remove_nodes_edges)
  ultimately have z: "z \<notin> set prunedNodes" using pruneFromNode_pruned [OF pr] by auto
  from pruneFromNode_pruned [OF pr] have ns': "ns' = remove_nodes prunedNodes ns" by simp
  from step.IH have "y \<notin> set prunedNodes" by simp
  with z \<open>(y, z) \<in> set (graph_edges ns)\<close>
  have "(y, z) \<in> set (graph_edges ns')" unfolding ns' by (simp add: remove_nodes_edges)
  with step.IH z show ?case by (auto intro: rtrancl_into_rtrancl)
qed

text \<open>A survivor that a permanent root or \<open>x\<close> could reach is still reached by a root.\<close>

lemma pruneFromNode_survivor:
  assumes pr: "pruneFromNode ns x perm = (prunedNodes, ns')"
    and cov: "reachable_from_roots ns perm y \<or> reachable ns x y"
    and y: "y \<in> node_ids ns'"
  shows "reachable_from_roots ns' perm y"
proof -
  from pruneFromNode_pruned [OF pr] have ns': "ns' = remove_nodes prunedNodes ns"
    and pruned: "set prunedNodes
        = insert x {y \<in> node_ids ns. y \<noteq> x \<and> reachable ns x y \<and> \<not> live ns x perm y}"
    by simp_all
  from y have yin: "y \<in> node_ids ns" and ynot: "y \<notin> set prunedNodes"
    by (simp_all add: ns' remove_nodes_ids)
  have "live ns x perm y"
  proof (cases "reachable ns x y")
    case True
    with yin ynot pruned show ?thesis by auto
  next
    case False
    with cov have "reachable_from_roots ns perm y" by blast
    then obtain p where p: "p \<in> set perm" "p \<in> node_ids ns" "(p, y) \<in> (set (graph_edges ns))\<^sup>*"
      by (auto simp: reachable_from_roots_def list_ex_iff isNodeDefined_ids reachable_rtrancl)
    from path_avoids [OF p(3)] False
    have "p \<noteq> x" "(p, y) \<in> (set (graph_edges (remove_nodes [x] ns)))\<^sup>*"
      by (simp_all add: reachable_rtrancl)
    with p show ?thesis by (auto simp: live_iff)
  qed
  then obtain p where p: "p \<in> set perm" "p \<in> node_ids ns" "p \<noteq> x"
    and path: "(p, y) \<in> (set (graph_edges (remove_nodes [x] ns)))\<^sup>*"
    by (auto simp: live_iff)
  from live_path_survives [OF pr p path] have "(p, y) \<in> (set (graph_edges ns'))\<^sup>*" by simp
  moreover from live_path_survives [OF pr p rtrancl.rtrancl_refl] have "p \<notin> set prunedNodes"
    by simp
  with p have "p \<in> node_ids ns'" by (simp add: ns' remove_nodes_ids)
  ultimately show ?thesis using p(1)
    by (auto simp: reachable_from_roots_def list_ex_iff isNodeDefined_ids reachable_rtrancl)
qed

text \<open>Which nodes survive the prune of a defined node.\<close>

lemma pruneFromNode_survivor_ids:
  assumes pr: "pruneFromNode ns x perm = (prunedNodes, ns')" and x: "x \<in> node_ids ns"
  shows "node_ids ns'
     = {y \<in> node_ids ns. y \<noteq> x \<and> (reachable ns x y \<longrightarrow> live ns x perm y)}"
  using pruneFromNode_pruned [OF pr] x by (auto simp: remove_nodes_ids)

lemma pruneNode_nodes_defined:
  assumes "isNodeDefined (nodes g) x"
  shows "\<exists>prunedNodes. pruneFromNode (nodes g) x (permanentNodes g) = (prunedNodes, nodes (pruneNode x g))"
    and "permanentNodes (pruneNode x g) = permanentNodes g"
  using assms by (auto simp: pruneNode_def foldl_prune_fields split: prod.splits)

lemma pruneNode_nodes_undefined:
  assumes "\<not> isNodeDefined (nodes g) x"
  shows "nodes (pruneNode x g) = nodes g" "permanentNodes (pruneNode x g) = permanentNodes g"
  using assms by (simp_all add: pruneNode_def)

text \<open>
  C1 as stated fails for a node that has nothing to do with the pruned one. \<open>A\<close> and
  \<open>Y\<close> are traced as two entries and no root is permanent; \<^verbatim>\<open>pruneNode('A')\<close> leaves
  \<open>Y\<close> in the graph, and \<open>Y\<close> is not reachable from any permanent root.
\<close>

theorem pruneNode_unrelated_node_counterexample:
  "isNodeDefined (nodes (pruneNode ''A'' (after two_entries_run))) ''Y''
   \<and> permanentNodes (pruneNode ''A'' (after two_entries_run)) = []
   \<and> \<not> reachable_from_roots (nodes (pruneNode ''A'' (after two_entries_run)))
         (permanentNodes (pruneNode ''A'' (after two_entries_run))) ''Y''"
  unfolding after_def two_entries_run_def by code_simp

text \<open>
  C1, amended. After \<^verbatim>\<open>pruneNode(x)\<close>, every node still in the graph that, before
  the call, was reachable along forward edges from a permanent root or from \<open>x\<close> is
  reachable from a permanent root along forward edges of the graph that is left. When
  \<open>x\<close> is a node of the graph, the nodes that are left are exactly the nodes other
  than \<open>x\<close> that either are not reachable from \<open>x\<close> or are reachable from a permanent
  root once \<open>x\<close> is gone: \<open>x\<close> and every node reachable from \<open>x\<close> that no remaining
  permanent root reaches have been removed, and nothing else. When \<open>x\<close> is not a
  node, the nodes are untouched. In both cases a node that is not reachable from \<open>x\<close>
  is left in place, whether or not a permanent root reaches it.
\<close>

theorem pruneNode_survivors_reachable:
  "(\<forall>y \<in> node_ids (nodes (pruneNode x g)).
       reachable_from_roots (nodes g) (permanentNodes g) y \<or> reachable (nodes g) x y
       \<longrightarrow> reachable_from_roots (nodes (pruneNode x g)) (permanentNodes (pruneNode x g)) y)
   \<and> (isNodeDefined (nodes g) x
       \<longrightarrow> node_ids (nodes (pruneNode x g))
            = {y \<in> node_ids (nodes g).
                 y \<noteq> x \<and> (reachable (nodes g) x y \<longrightarrow> live (nodes g) x (permanentNodes g) y)})
   \<and> (\<not> isNodeDefined (nodes g) x \<longrightarrow> nodes (pruneNode x g) = nodes g)
   \<and> (\<forall>y \<in> node_ids (nodes g).
         \<not> reachable (nodes g) x y \<longrightarrow> y \<in> node_ids (nodes (pruneNode x g)))"
proof (cases "isNodeDefined (nodes g) x")
  case True
  from pruneNode_nodes_defined [OF True] obtain prunedNodes
    where pr: "pruneFromNode (nodes g) x (permanentNodes g) = (prunedNodes, nodes (pruneNode x g))"
      and perm: "permanentNodes (pruneNode x g) = permanentNodes g"
    by blast
  from True have x: "x \<in> node_ids (nodes g)" by (simp add: isNodeDefined_ids)
  have ids: "node_ids (nodes (pruneNode x g))
      = {y \<in> node_ids (nodes g).
           y \<noteq> x \<and> (reachable (nodes g) x y \<longrightarrow> live (nodes g) x (permanentNodes g) y)}"
    by (rule pruneFromNode_survivor_ids [OF pr x])
  have reach: "reachable_from_roots (nodes (pruneNode x g)) (permanentNodes (pruneNode x g)) y"
    if "y \<in> node_ids (nodes (pruneNode x g))"
      and "reachable_from_roots (nodes g) (permanentNodes g) y \<or> reachable (nodes g) x y" for y
    unfolding perm using pr that(2) that(1) by (rule pruneFromNode_survivor)
  have kept: "y \<in> node_ids (nodes (pruneNode x g))"
    if "y \<in> node_ids (nodes g)" and "\<not> reachable (nodes g) x y" for y
    using that unfolding ids by (auto simp: reachable_def)
  from True ids reach kept show ?thesis by blast
next
  case False
  note same = pruneNode_nodes_undefined [OF False]
  have "reachable_from_roots (nodes g) (permanentNodes g) y"
    if y: "y \<in> node_ids (nodes g)"
      and c: "reachable_from_roots (nodes g) (permanentNodes g) y \<or> reachable (nodes g) x y" for y
  proof -
    from False have "x \<notin> node_ids (nodes g)" by (simp add: isNodeDefined_ids)
    with y have "\<not> reachable (nodes g) x y"
      by (auto simp: reachable_rtrancl dest: reachable_from_undefined)
    with c show ?thesis by blast
  qed
  with False same show ?thesis by auto
qed

theorem pruneNode_survivors_reachable_witness:
  "map fst (nodes (pruneNode ''A'' (after cycle_run))) = [''B'', ''C'']
   \<and> reachable_from_roots (nodes (pruneNode ''A'' (after cycle_run)))
         (permanentNodes (pruneNode ''A'' (after cycle_run))) ''B''
   \<and> reachable_from_roots (nodes (pruneNode ''A'' (after cycle_run)))
         (permanentNodes (pruneNode ''A'' (after cycle_run))) ''C''
   \<and> map fst (nodes (after unrelated_run)) = [''A'', ''B'', ''Y'']
   \<and> \<not> reachable (nodes (after unrelated_run)) ''A'' ''Y''
   \<and> \<not> reachable_from_roots (nodes (after unrelated_run)) (permanentNodes (after unrelated_run)) ''Y''
   \<and> node_ids (nodes (pruneNode ''A'' (after unrelated_run))) = {''Y''}"
proof -
  let ?g = "after cycle_run"
  let ?u = "after unrelated_run"
  have k: "map fst (nodes (pruneNode ''A'' ?g)) = [''B'', ''C'']"
    unfolding after_def cycle_run_def by code_simp
  then have ids: "node_ids (nodes (pruneNode ''A'' ?g)) = {''B'', ''C''}"
    by (simp add: node_ids_def)
  have h: "reachable (nodes ?g) ''A'' ''B''" "reachable (nodes ?g) ''A'' ''C''"
    unfolding after_def cycle_run_def by code_simp+
  from pruneNode_survivors_reachable [of "''A''" ?g] ids h
  have r: "reachable_from_roots (nodes (pruneNode ''A'' ?g)) (permanentNodes (pruneNode ''A'' ?g)) ''B''"
    "reachable_from_roots (nodes (pruneNode ''A'' ?g)) (permanentNodes (pruneNode ''A'' ?g)) ''C''"
    by simp_all
  have u: "map fst (nodes ?u) = [''A'', ''B'', ''Y'']"
    "\<not> reachable (nodes ?u) ''A'' ''Y''"
    "\<not> reachable_from_roots (nodes ?u) (permanentNodes ?u) ''Y''"
    "isNodeDefined (nodes ?u) ''A''"
    "reachable (nodes ?u) ''A'' ''A''" "reachable (nodes ?u) ''A'' ''B''"
    "\<not> live (nodes ?u) ''A'' (permanentNodes ?u) ''B''"
    unfolding after_def unrelated_run_def by code_simp+
  from u(1) have uids: "node_ids (nodes ?u) = {''A'', ''B'', ''Y''}"
    by (auto simp: node_ids_def)
  from pruneNode_survivors_reachable [of "''A''" ?u] u(4)
  have "node_ids (nodes (pruneNode ''A'' ?u))
      = {y \<in> node_ids (nodes ?u).
           y \<noteq> ''A'' \<and> (reachable (nodes ?u) ''A'' y \<longrightarrow> live (nodes ?u) ''A'' (permanentNodes ?u) y)}"
    by blast
  with uids u have "node_ids (nodes (pruneNode ''A'' ?u)) = {''Y''}"
    by auto
  with k r u show ?thesis by simp
qed

end
